theory Spec2Isabelle
  imports Complex_Main "HOL-Library.Word"
begin

section \<open>Buffers and the accessors of \<^verbatim>\<open>src/src/utils/m4aWriter.js\<close>\<close>

text \<open>
  A Node \<^verbatim>\<open>Buffer\<close> is a list of bytes. Offsets, sizes and lengths are JavaScript
  numbers that hold integers; they are modelled as \<open>int\<close>. An exception is a value
  of \<open>error\<close>; a function that can throw returns \<open>error + 'a\<close> with \<open>Inl\<close> the
  exception.
\<close>

type_synonym byte = "8 word"
type_synonym buffer = "byte list"

datatype error =
    RangeError                \<comment> \<open>\<^verbatim>\<open>ERR_OUT_OF_RANGE\<close> of a Buffer read or write\<close>
  | TypeError                 \<comment> \<open>a property of \<^verbatim>\<open>undefined\<close>/\<^verbatim>\<open>null\<close>, or a call of a non-function\<close>
  | SystemError string        \<comment> \<open>a rejection of \<^verbatim>\<open>fs.promises\<close>, with its code (\<^verbatim>\<open>ENOENT\<close>, \<^verbatim>\<open>EACCES\<close>, \<^verbatim>\<open>ENOSPC\<close>, ...)\<close>
  | NoMoovAtom                \<comment> \<open>\<^verbatim>\<open>'No moov atom found in M4A file'\<close>\<close>
  | FailedToInject error      \<comment> \<open>\<^verbatim>\<open>`Failed to inject kaid atom: ${error.message}`\<close>\<close>

definition blen :: "buffer \<Rightarrow> int" where
  "blen b = int (length b)"

definition be_val :: "byte list \<Rightarrow> int" where
  \<comment> \<open>the unsigned big-endian value of a run of bytes\<close>
  "be_val bs = foldl (\<lambda>acc x. acc * 256 + uint x) 0 bs"

definition be_bytes :: "nat \<Rightarrow> int \<Rightarrow> byte list" where
  \<comment> \<open>the \<open>n\<close> low-order bytes of a value, most significant first\<close>
  "be_bytes n v = map (\<lambda>k. word_of_int (v div 256 ^ k)) (rev [0..<n])"

definition bslice :: "buffer \<Rightarrow> int \<Rightarrow> int \<Rightarrow> buffer" where
  \<comment> \<open>\<^verbatim>\<open>buffer.slice(start, end)\<close>: a negative index counts from the end, both are
      clamped to the buffer, an empty range gives the empty buffer\<close>
  "bslice b s e =
     (let n = blen b;
          s' = (if s < 0 then max (s + n) 0 else min s n);
          e' = (if e < 0 then max (e + n) 0 else min e n)
      in if s' < e' then take (nat (e' - s')) (drop (nat s') b) else [])"

definition bslice_from :: "buffer \<Rightarrow> int \<Rightarrow> buffer" where
  \<comment> \<open>\<^verbatim>\<open>buffer.slice(start)\<close>\<close>
  "bslice_from b s = bslice b s (blen b)"

definition readUInt32BE :: "buffer \<Rightarrow> int \<Rightarrow> error + int" where
  "readUInt32BE b off =
     (if 0 \<le> off \<and> off + 4 \<le> blen b
      then Inr (be_val (take 4 (drop (nat off) b)))
      else Inl RangeError)"

definition readBigUInt64BE :: "buffer \<Rightarrow> int \<Rightarrow> error + int" where
  "readBigUInt64BE b off =
     (if 0 \<le> off \<and> off + 8 \<le> blen b
      then Inr (be_val (take 8 (drop (nat off) b)))
      else Inl RangeError)"

definition overwrite :: "buffer \<Rightarrow> nat \<Rightarrow> byte list \<Rightarrow> buffer" where
  \<comment> \<open>the buffer with \<open>bs\<close> stored from index \<open>i\<close> on (callers check the range)\<close>
  "overwrite b i bs = take i b @ bs @ drop (i + length bs) b"

definition writeUInt32BE :: "buffer \<Rightarrow> int \<Rightarrow> int \<Rightarrow> error + buffer" where
  \<comment> \<open>\<^verbatim>\<open>buffer.writeUInt32BE(value, offset)\<close>: throws when the value is outside
      \<open>0 .. 2^32 - 1\<close> or the four bytes do not lie in the buffer\<close>
  "writeUInt32BE b v off =
     (if 0 \<le> v \<and> v < 2 ^ 32 \<and> 0 \<le> off \<and> off + 4 \<le> blen b
      then Inr (overwrite b (nat off) (be_bytes 4 v))
      else Inl RangeError)"

definition writeBigUInt64BE :: "buffer \<Rightarrow> int \<Rightarrow> int \<Rightarrow> error + buffer" where
  "writeBigUInt64BE b v off =
     (if 0 \<le> v \<and> v < 2 ^ 64 \<and> 0 \<le> off \<and> off + 8 \<le> blen b
      then Inr (overwrite b (nat off) (be_bytes 8 v))
      else Inl RangeError)"

definition ascii :: "string \<Rightarrow> byte list" where
  \<comment> \<open>the bytes of an ASCII string literal\<close>
  "ascii s = map (\<lambda>c. of_nat (of_char c)) s"

definition type_at :: "buffer \<Rightarrow> int \<Rightarrow> byte list" where
  \<comment> \<open>\<^verbatim>\<open>buffer.toString('utf8', pos + 4, pos + 8)\<close>, kept as the bytes it decodes (the
      range is clamped to the buffer). The decoded string equals a four-letter ASCII
      tag exactly when these bytes are the tag's ASCII codes.\<close>
  "type_at b pos = bslice b (pos + 4) (pos + 8)"

section \<open>\<^verbatim>\<open>parseMP4Atoms\<close>\<close>

record atom =
  atype :: "byte list"
  offset :: int
  size :: int
  dataOffset :: int

text \<open>
  The \<^verbatim>\<open>while\<close> loop of \<^verbatim>\<open>parseMP4Atoms\<close>. \<open>None\<close> stands for a loop that never
  returns; \<open>Some (Inl e)\<close> for an exception that leaves the function.
\<close>

partial_function (option) parse_loop ::
  "buffer \<Rightarrow> int \<Rightarrow> int \<Rightarrow> atom list \<Rightarrow> (error + atom list) option" where
  "parse_loop b endOffset pos atoms =
     (if pos < endOffset - 8 then
        (case readUInt32BE b pos of
           Inl e \<Rightarrow> Some (Inl e)
         | Inr sz \<Rightarrow>
             if sz = 0 \<or> sz > blen b - pos then Some (Inr atoms)
             else parse_loop b endOffset (pos + sz)
                    (atoms @ [\<lparr>atype = type_at b pos, offset = pos, size = sz,
                               dataOffset = pos + 8\<rparr>]))
      else Some (Inr atoms))"

declare parse_loop.simps [code]

definition parseMP4Atoms ::
  "buffer \<Rightarrow> int \<Rightarrow> int option \<Rightarrow> (error + atom list) option" where
  \<comment> \<open>\<^verbatim>\<open>maxLength\<close> is \<open>None\<close> for the default \<^verbatim>\<open>null\<close>; \<^verbatim>\<open>maxLength ? \<dots> : \<dots>\<close> also
      takes the default for \<open>0\<close>\<close>
  "parseMP4Atoms b off maxLength =
     (let endOffset = (case maxLength of
                         None \<Rightarrow> blen b
                       | Some m \<Rightarrow> if m \<noteq> 0 then off + m else blen b)
      in parse_loop b endOffset off [])"





section \<open>\<^verbatim>\<open>updateChunkOffsets\<close>\<close>

text \<open>
  The arithmetic of \<^verbatim>\<open>updateChunkOffsets\<close> is on JavaScript numbers (IEEE doubles).
  On integers a double is exact up to \<open>2^53\<close>; beyond, \<^verbatim>\<open>Number(bigint)\<close> and \<^verbatim>\<open>+\<close>
  round to the nearest value with 53 significant bits, ties to even. \<open>to_double\<close>
  is that rounding on integers (all values here are far below the overflow of a
  double).
\<close>

function bit_length :: "int \<Rightarrow> nat" where
  "bit_length n = (if n \<le> 0 then 0 else Suc (bit_length (n div 2)))"
  by pat_completeness auto
termination
  by (relation "measure nat") auto

declare bit_length.simps [simp del]

definition round53 :: "int \<Rightarrow> int" where
  \<comment> \<open>for \<open>n \<ge> 0\<close>\<close>
  "round53 n =
     (if n < 2 ^ 53 then n
      else (let sh = bit_length n - 53;
                q = n div 2 ^ sh;
                r = n mod 2 ^ sh;
                half = 2 ^ (sh - 1)
            in if r > half \<or> (r = half \<and> odd q) then (q + 1) * 2 ^ sh else q * 2 ^ sh))"

definition to_double :: "int \<Rightarrow> int" where
  "to_double x = (if x < 0 then - round53 (- x) else round53 x)"

definition js_add :: "int \<Rightarrow> int \<Rightarrow> int" where
  \<comment> \<open>\<^verbatim>\<open>a + b\<close> on two doubles that hold integers\<close>
  "js_add a b = to_double (a + b)"

record upd =
  buf :: buffer           \<comment> \<open>\<^verbatim>\<open>moovBuffer\<close>, mutated in place\<close>
  stcoCount :: nat
  co64Count :: nat
  totalUpdated :: nat

text \<open>
  The two \<^verbatim>\<open>for\<close> loops over the entries of a table. They run inside the \<^verbatim>\<open>try\<close> block:
  the result carries the state reached and the exception, if one was thrown (writes
  made before the exception stay in the buffer).
\<close>

function stco_entries :: "int \<Rightarrow> int \<Rightarrow> int \<Rightarrow> int \<Rightarrow> int \<Rightarrow> upd \<Rightarrow> upd \<times> error option" where
  "stco_entries sizeDelta shiftThreshold pos entryCount i st =
     (if i < entryCount then
        (let offsetPos = pos + 16 + i * 4 in
         case readUInt32BE (buf st) offsetPos of
           Inl e \<Rightarrow> (st, Some e)
         | Inr chunkOffset \<Rightarrow>
             if chunkOffset \<ge> shiftThreshold then
               (let newOffset = js_add chunkOffset sizeDelta in
                case writeUInt32BE (buf st) newOffset offsetPos of
                  Inl e \<Rightarrow> (st, Some e)
                | Inr b' \<Rightarrow>
                    stco_entries sizeDelta shiftThreshold pos entryCount (i + 1)
                      (st\<lparr>buf := b', totalUpdated := totalUpdated st + 1\<rparr>))
             else stco_entries sizeDelta shiftThreshold pos entryCount (i + 1) st)
      else (st, None))"
  by pat_completeness auto
termination
  by (relation "measure (\<lambda>(sizeDelta, shiftThreshold, pos, entryCount, i, st). nat (entryCount - i))")
     auto

declare stco_entries.simps [simp del]

function co64_entries :: "int \<Rightarrow> int \<Rightarrow> int \<Rightarrow> int \<Rightarrow> int \<Rightarrow> upd \<Rightarrow> upd \<times> error option" where
  "co64_entries sizeDelta shiftThreshold pos entryCount i st =
     (if i < entryCount then
        (let offsetPos = pos + 16 + i * 8 in
         case readBigUInt64BE (buf st) offsetPos of
           Inl e \<Rightarrow> (st, Some e)
         | Inr raw \<Rightarrow>
             (let chunkOffset = to_double raw in
              if chunkOffset \<ge> shiftThreshold then
                (let newOffset = js_add chunkOffset sizeDelta in
                 case writeBigUInt64BE (buf st) newOffset offsetPos of
                   Inl e \<Rightarrow> (st, Some e)
                 | Inr b' \<Rightarrow>
                     co64_entries sizeDelta shiftThreshold pos entryCount (i + 1)
                       (st\<lparr>buf := b', totalUpdated := totalUpdated st + 1\<rparr>))
              else co64_entries sizeDelta shiftThreshold pos entryCount (i + 1) st))
      else (st, None))"
  by pat_completeness auto
termination
  by (relation "measure (\<lambda>(sizeDelta, shiftThreshold, pos, entryCount, i, st). nat (entryCount - i))")
     auto

declare co64_entries.simps [simp del]

definition containers :: "byte list list" where
  "containers = [ascii ''trak'', ascii ''mdia'', ascii ''minf'', ascii ''stbl'', ascii ''moov'']"

text \<open>
  The closure \<^verbatim>\<open>searchAtoms\<close>: a \<^verbatim>\<open>while\<close> loop that calls itself on the payload of a
  container. \<open>None\<close> stands for a search that never returns. An exception in the
  \<^verbatim>\<open>try\<close> block is caught in the loop: the position moves on by 8 bytes.
\<close>

partial_function (option) searchAtoms ::
  "int \<Rightarrow> int \<Rightarrow> int \<Rightarrow> int \<Rightarrow> upd \<Rightarrow> upd option" where
  "searchAtoms sizeDelta shiftThreshold pos end st =
     (if pos < end - 8 \<and> pos < blen (buf st) - 8 then
        (case readUInt32BE (buf st) pos of
           Inl e \<Rightarrow> searchAtoms sizeDelta shiftThreshold (pos + 8) end st
         | Inr sz \<Rightarrow>
             if sz < 8 \<or> sz > end - pos then
               searchAtoms sizeDelta shiftThreshold (pos + 8) end st
             else if type_at (buf st) pos = ascii ''stco'' then
               (let st1 = st\<lparr>stcoCount := stcoCount st + 1\<rparr> in
                case readUInt32BE (buf st1) (pos + 12) of
                  Inl e \<Rightarrow> searchAtoms sizeDelta shiftThreshold (pos + 8) end st1
                | Inr entryCount \<Rightarrow>
                    (case stco_entries sizeDelta shiftThreshold pos entryCount 0 st1 of
                       (st2, Some e) \<Rightarrow> searchAtoms sizeDelta shiftThreshold (pos + 8) end st2
                     | (st2, None) \<Rightarrow> searchAtoms sizeDelta shiftThreshold (pos + sz) end st2))
             else if type_at (buf st) pos = ascii ''co64'' then
               (let st1 = st\<lparr>co64Count := co64Count st + 1\<rparr> in
                case readUInt32BE (buf st1) (pos + 12) of
                  Inl e \<Rightarrow> searchAtoms sizeDelta shiftThreshold (pos + 8) end st1
                | Inr entryCount \<Rightarrow>
                    (case co64_entries sizeDelta shiftThreshold pos entryCount 0 st1 of
                       (st2, Some e) \<Rightarrow> searchAtoms sizeDelta shiftThreshold (pos + 8) end st2
                     | (st2, None) \<Rightarrow> searchAtoms sizeDelta shiftThreshold (pos + sz) end st2))
             else if type_at (buf st) pos \<in> set containers then
               Option.bind (searchAtoms sizeDelta shiftThreshold (pos + 8) (pos + sz) st)
                 (\<lambda>st'. searchAtoms sizeDelta shiftThreshold (pos + sz) end st')
             else searchAtoms sizeDelta shiftThreshold (pos + sz) end st)
      else Some st)"

declare searchAtoms.simps [code]

definition updateChunkOffsets :: "buffer \<Rightarrow> int \<Rightarrow> int \<Rightarrow> upd option" where
  \<comment> \<open>the state after the call: the buffer as mutated, and the three counters that
      the function logs\<close>
  "updateChunkOffsets moovBuffer sizeDelta shiftThreshold =
     searchAtoms sizeDelta shiftThreshold 0 (blen moovBuffer)
       \<lparr>buf = moovBuffer, stcoCount = 0, co64Count = 0, totalUpdated = 0\<rparr>"



section \<open>The chunk-offset tables of a buffer\<close>

text \<open>
  The tables that the search of \<^verbatim>\<open>updateChunkOffsets\<close> reaches, found by the same
  navigation without writing: from the top level, into every \<^verbatim>\<open>moov\<close>, \<^verbatim>\<open>trak\<close>,
  \<^verbatim>\<open>mdia\<close>, \<^verbatim>\<open>minf\<close> and \<^verbatim>\<open>stbl\<close> box, past every other box by its declared size and
  past a header with an unusable size by 8 bytes. A table is recorded with its kind,
  the position of its box, the size of the box and its entry count.
\<close>

datatype table_kind = Stco | Co64

fun width :: "table_kind \<Rightarrow> int" where
  "width Stco = 4"
| "width Co64 = 8"

type_synonym table = "table_kind \<times> int \<times> int \<times> int"

function tables :: "buffer \<Rightarrow> int \<Rightarrow> int \<Rightarrow> table list" where
  "tables b pos end =
     (if pos < end - 8 \<and> pos < blen b - 8 then
        (case readUInt32BE b pos of
           Inl e \<Rightarrow> tables b (pos + 8) end
         | Inr sz \<Rightarrow>
             if sz < 8 \<or> sz > end - pos then tables b (pos + 8) end
             else if type_at b pos = ascii ''stco'' then
               (case readUInt32BE b (pos + 12) of
                  Inl e \<Rightarrow> tables b (pos + 8) end
                | Inr entryCount \<Rightarrow> (Stco, pos, sz, entryCount) # tables b (pos + sz) end)
             else if type_at b pos = ascii ''co64'' then
               (case readUInt32BE b (pos + 12) of
                  Inl e \<Rightarrow> tables b (pos + 8) end
                | Inr entryCount \<Rightarrow> (Co64, pos, sz, entryCount) # tables b (pos + sz) end)
             else if type_at b pos \<in> set containers then
               tables b (pos + 8) (pos + sz) @ tables b (pos + sz) end
             else tables b (pos + sz) end)
      else [])"
  by pat_completeness auto
termination
  by (relation "measure (\<lambda>(b, pos, end). nat (end - pos))") auto

declare tables.simps [simp del]

definition entry_at :: "table_kind \<Rightarrow> buffer \<Rightarrow> int \<Rightarrow> int \<Rightarrow> int" where
  \<comment> \<open>entry \<open>i\<close> of the table whose box starts at \<open>pos\<close>: 4 bytes version and flags and
      4 bytes entry count follow the 8-byte header\<close>
  "entry_at k b pos i =
     be_val (take (nat (width k)) (drop (nat (pos + 16 + i * width k)) b))"

definition entries :: "buffer \<Rightarrow> table list \<Rightarrow> int list" where
  \<comment> \<open>all entries of the tables, in order\<close>
  "entries b ts = concat (map (\<lambda>(k, p, sz, n). map (entry_at k b p) [0..n - 1]) ts)"

definition region :: "table list \<Rightarrow> int set" where
  \<comment> \<open>the byte positions that hold entries\<close>
  "region ts = (\<Union>(k, p, sz, n)\<in>set ts. {p + 16 ..< p + 16 + n * width k})"

definition shift :: "int \<Rightarrow> int \<Rightarrow> int \<Rightarrow> int" where
  \<comment> \<open>the rewrite of one entry \<open>o\<close>: \<open>o + \<Delta>\<close> exactly when \<open>o \<ge> T\<close>\<close>
  "shift sizeDelta shiftThreshold off =
     (if off \<ge> shiftThreshold then off + sizeDelta else off)"

definition limit :: "table_kind \<Rightarrow> int" where
  \<comment> \<open>what an entry can hold exactly: 32 bits, or the 53 bits of a double\<close>
  "limit k = (case k of Stco \<Rightarrow> 2 ^ 32 | Co64 \<Rightarrow> 2 ^ 53)"

definition table_ok :: "int \<Rightarrow> int \<Rightarrow> buffer \<Rightarrow> table \<Rightarrow> bool" where
  \<comment> \<open>the entries lie inside the box, and no entry leaves the range of its kind,
      before or after the rewrite\<close>
  "table_ok sizeDelta shiftThreshold b t =
     (case t of (k, p, sz, n) \<Rightarrow>
        16 + n * width k \<le> sz \<and>
        list_all (\<lambda>i. entry_at k b p i < limit k \<and>
                       0 \<le> shift sizeDelta shiftThreshold (entry_at k b p i) \<and>
                       shift sizeDelta shiftThreshold (entry_at k b p i) < limit k)
          [0..n - 1])"

text \<open>
  Notions for stating what the rewrite does: two buffers that agree outside a set of
  positions; tables that lie in a range, with their entries inside their boxes; and a
  state reached from another by rewriting the entries of a list of tables.
\<close>

definition same_outside :: "int set \<Rightarrow> buffer \<Rightarrow> buffer \<Rightarrow> bool" where
  "same_outside S b1 b2 \<longleftrightarrow>
     length b1 = length b2 \<and> (\<forall>j < length b1. int j \<notin> S \<longrightarrow> b1 ! j = b2 ! j)"

definition tables_in :: "int \<Rightarrow> int \<Rightarrow> table list \<Rightarrow> bool" where
  "tables_in lo hi ts \<longleftrightarrow>
     (\<forall>k p sz n. (k, p, sz, n) \<in> set ts \<longrightarrow>
        lo \<le> p \<and> 16 + n * width k \<le> sz \<and> p + sz \<le> hi)"

definition rewritten :: "int \<Rightarrow> int \<Rightarrow> table list \<Rightarrow> upd \<Rightarrow> upd \<Rightarrow> bool" where
  "rewritten d t ts st st' \<longleftrightarrow>
     same_outside (region ts) (buf st') (buf st) \<and>
     entries (buf st') ts = map (shift d t) (entries (buf st) ts) \<and>
     totalUpdated st' =
       totalUpdated st + length (filter (\<lambda>off. t \<le> off) (entries (buf st) ts))"

text \<open>
  One step of a rewrite in place, for a delta and a threshold: one entry of a box at
  \<open>p\<close> whose type is \<^verbatim>\<open>stco\<close> (entry \<open>i\<close> is the 4 bytes at \<open>p + 16 + 4 i\<close>) or \<^verbatim>\<open>co64\<close>
  (the 8 bytes at \<open>p + 16 + 8 i\<close>) is replaced. The entry lies in the buffer, its value
  (for \<^verbatim>\<open>co64\<close>, as a double) is at least the threshold, and the value stored is the
  sum of that value and the delta, which fits the width of the entry.
\<close>

definition tag :: "table_kind \<Rightarrow> byte list" where
  "tag k = (case k of Stco \<Rightarrow> ascii ''stco'' | Co64 \<Rightarrow> ascii ''co64'')"

definition as_number :: "table_kind \<Rightarrow> int \<Rightarrow> int" where
  \<comment> \<open>the entry as the number the rewrite computes with\<close>
  "as_number k v = (case k of Stco \<Rightarrow> v | Co64 \<Rightarrow> to_double v)"

definition entry_write :: "int \<Rightarrow> int \<Rightarrow> buffer \<Rightarrow> buffer \<Rightarrow> bool" where
  "entry_write sizeDelta shiftThreshold b b' \<longleftrightarrow>
     (\<exists>k p i.
        0 \<le> p \<and> 0 \<le> i \<and> type_at b p = tag k \<and>
        p + 16 + i * width k + width k \<le> blen b \<and>
        shiftThreshold \<le> as_number k (entry_at k b p i) \<and>
        0 \<le> js_add (as_number k (entry_at k b p i)) sizeDelta \<and>
        js_add (as_number k (entry_at k b p i)) sizeDelta < 256 ^ nat (width k) \<and>
        b' = overwrite b (nat (p + 16 + i * width k))
               (be_bytes (nat (width k)) (js_add (as_number k (entry_at k b p i)) sizeDelta)))"

section \<open>Building atoms\<close>

text \<open>
  A JavaScript string is a list of UTF-16 code units. \<open>utf8\<close> is
  \<^verbatim>\<open>Buffer.from(s, 'utf8')\<close>: a surrogate pair becomes one code point, a surrogate
  without its partner becomes U+FFFD, and every code point is written in 1 to 4 bytes.
\<close>

type_synonym jsstring = "16 word list"

fun code_points :: "int list \<Rightarrow> int list" where
  "code_points [] = []"
| "code_points [x] = (if 55296 \<le> x \<and> x < 57344 then [65533] else [x])"
| "code_points (x # y # us) =
     (if 55296 \<le> x \<and> x < 56320 then
        (if 56320 \<le> y \<and> y < 57344
         then (65536 + (x - 55296) * 1024 + (y - 56320)) # code_points us
         else 65533 # code_points (y # us))
      else if 56320 \<le> x \<and> x < 57344 then 65533 # code_points (y # us)
      else x # code_points (y # us))"

definition utf8_point :: "int \<Rightarrow> int list" where
  "utf8_point c =
     (if c < 128 then [c]
      else if c < 2048 then [192 + c div 64, 128 + c mod 64]
      else if c < 65536 then [224 + c div 4096, 128 + c div 64 mod 64, 128 + c mod 64]
      else [240 + c div 262144, 128 + c div 4096 mod 64, 128 + c div 64 mod 64,
            128 + c mod 64])"

definition utf8 :: "jsstring \<Rightarrow> buffer" where
  "utf8 s = map word_of_int (concat (map utf8_point (code_points (map uint s))))"

definition js :: "string \<Rightarrow> jsstring" where
  \<comment> \<open>an ASCII string literal as a JavaScript string\<close>
  "js s = map (\<lambda>c. of_nat (of_char c)) s"

text \<open>
  Well-formed UTF-8 (the Unicode standard, table 3-7), on the values of the bytes.
\<close>

definition cont :: "int \<Rightarrow> bool" where
  "cont x \<longleftrightarrow> 128 \<le> x \<and> x \<le> 191"

fun valid_utf8 :: "int list \<Rightarrow> bool" where
  "valid_utf8 [] = True"
| "valid_utf8 (b0 # bs) =
     (if 0 \<le> b0 \<and> b0 < 128 then valid_utf8 bs
      else if 194 \<le> b0 \<and> b0 \<le> 223 then
        (case bs of b1 # r \<Rightarrow> cont b1 \<and> valid_utf8 r | _ \<Rightarrow> False)
      else if 224 \<le> b0 \<and> b0 \<le> 239 then
        (case bs of
           b1 # b2 # r \<Rightarrow>
             (if b0 = 224 then 160 \<le> b1 \<and> b1 \<le> 191
              else if b0 = 237 then 128 \<le> b1 \<and> b1 \<le> 159
              else cont b1) \<and> cont b2 \<and> valid_utf8 r
         | _ \<Rightarrow> False)
      else if 240 \<le> b0 \<and> b0 \<le> 244 then
        (case bs of
           b1 # b2 # b3 # r \<Rightarrow>
             (if b0 = 240 then 144 \<le> b1 \<and> b1 \<le> 191
              else if b0 = 244 then 128 \<le> b1 \<and> b1 \<le> 143
              else cont b1) \<and> cont b2 \<and> cont b3 \<and> valid_utf8 r
         | _ \<Rightarrow> False)
      else False)"

definition alloc :: "nat \<Rightarrow> buffer" where
  \<comment> \<open>\<^verbatim>\<open>Buffer.alloc(n)\<close>\<close>
  "alloc n = replicate n 0"

definition createAtom :: "byte list \<Rightarrow> buffer \<Rightarrow> error + buffer" where
  \<comment> \<open>\<^verbatim>\<open>header.write(type, 4, 4, 'utf8')\<close> stores the four ASCII letters of the type\<close>
  "createAtom type data =
     (let size = 8 + blen data in
      case writeUInt32BE (alloc 8) size 0 of
        Inl e \<Rightarrow> Inl e
      | Inr header \<Rightarrow> Inr (overwrite header 4 (take 4 type) @ data))"

definition createKaidAtom :: "jsstring \<Rightarrow> error + buffer" where
  "createKaidAtom kaidJson =
     (let namespace = ascii ''com.stems'';
          name = ascii ''kaid'';
          jsonData = utf8 kaidJson
      in case writeUInt32BE (alloc (4 + length namespace)) 0 0 of
           Inl e \<Rightarrow> Inl e
         | Inr meanData0 \<Rightarrow>
        (case createAtom (ascii ''mean'') (overwrite meanData0 4 namespace) of
           Inl e \<Rightarrow> Inl e
         | Inr meanAtom \<Rightarrow>
        (case writeUInt32BE (alloc (4 + length name)) 0 0 of
           Inl e \<Rightarrow> Inl e
         | Inr nameData0 \<Rightarrow>
        (case createAtom (ascii ''name'') (overwrite nameData0 4 name) of
           Inl e \<Rightarrow> Inl e
         | Inr nameAtom \<Rightarrow>
        (case writeUInt32BE (alloc 8) 1 0 of
           Inl e \<Rightarrow> Inl e
         | Inr dataHeader0 \<Rightarrow>
        (case writeUInt32BE dataHeader0 0 4 of
           Inl e \<Rightarrow> Inl e
         | Inr dataHeader \<Rightarrow>
        (case createAtom (ascii ''data'') (dataHeader @ jsonData) of
           Inl e \<Rightarrow> Inl e
         | Inr dataAtom \<Rightarrow>
             createAtom (ascii ''----'') (meanAtom @ nameAtom @ dataAtom))))))))"

definition hdlrData :: buffer where
  "hdlrData = [0, 0, 0, 0,  0, 0, 0, 0,  109, 100, 105, 114,  97, 112, 112, 108,
               0, 0, 0, 0,  0, 0, 0, 0,  0]"

definition createMetaIlstKaidStructure :: "buffer \<Rightarrow> error + buffer" where
  "createMetaIlstKaidStructure kaidAtomData =
     (case createAtom (ascii ''ilst'') kaidAtomData of
        Inl e \<Rightarrow> Inl e
      | Inr ilst \<Rightarrow>
     (case writeUInt32BE (alloc 4) 0 0 of
        Inl e \<Rightarrow> Inl e
      | Inr metaVersion \<Rightarrow>
     (case createAtom (ascii ''hdlr'') hdlrData of
        Inl e \<Rightarrow> Inl e
      | Inr hdlr \<Rightarrow> Inr (metaVersion @ hdlr @ ilst))))"

text \<open>
  The format, for stating what the encoders produce: a box is its size in 4 bytes,
  its type in 4 bytes and its payload; a freeform item \<open>(namespace, name, type code,
  value)\<close> is a \<^verbatim>\<open>----\<close> box of three boxes, \<^verbatim>\<open>mean\<close>, \<^verbatim>\<open>name\<close> and \<^verbatim>\<open>data\<close>.
\<close>

definition box :: "string \<Rightarrow> buffer \<Rightarrow> buffer" where
  "box t d = be_bytes 4 (8 + blen d) @ ascii t @ d"

definition freeform :: "string \<Rightarrow> string \<Rightarrow> int \<Rightarrow> buffer \<Rightarrow> buffer" where
  "freeform namespace name type_code v =
     box ''----''
       (box ''mean'' ([0, 0, 0, 0] @ ascii namespace) @
        box ''name'' ([0, 0, 0, 0] @ ascii name) @
        box ''data'' (be_bytes 4 type_code @ be_bytes 4 0 @ v))"

definition scalar :: "int \<Rightarrow> bool" where
  \<comment> \<open>a Unicode scalar value: a code point that is not a surrogate\<close>
  "scalar c \<longleftrightarrow> 0 \<le> c \<and> c < 1114112 \<and> \<not> (55296 \<le> c \<and> c < 57344)"

section \<open>\<^verbatim>\<open>updateMetaWithKaid\<close> and \<^verbatim>\<open>injectKaidAtom\<close>\<close>

text \<open>
  A computation that calls the parser or the chunk-offset rewrite has a result in
  \<open>(error + 'a) option\<close>: \<open>None\<close> when a loop does not return, \<open>Some (Inl e)\<close> for an
  exception, \<open>Some (Inr x)\<close> for a value. \<open>bind_result\<close> runs the next statement on the
  value.
\<close>

definition bind_result ::
  "(error + 'a) option \<Rightarrow> ('a \<Rightarrow> (error + 'b) option) \<Rightarrow> (error + 'b) option" where
  "bind_result m f = (case m of None \<Rightarrow> None | Some (Inl e) \<Rightarrow> Some (Inl e) | Some (Inr x) \<Rightarrow> f x)"

definition updateMetaWithKaid :: "buffer \<Rightarrow> atom \<Rightarrow> buffer \<Rightarrow> (error + buffer) option" where
  "updateMetaWithKaid fileBuffer metaAtom kaidAtomData =
     bind_result (parseMP4Atoms fileBuffer (dataOffset metaAtom + 4) (Some (size metaAtom - 12)))
       (\<lambda>metaChildren.
     case find (\<lambda>a. atype a = ascii ''ilst'') metaChildren of
       None \<Rightarrow>
         (let beforeIlst = bslice fileBuffer (dataOffset metaAtom)
                             (dataOffset metaAtom + size metaAtom - 8)
          in bind_result (Some (createAtom (ascii ''ilst'') kaidAtomData))
               (\<lambda>ilst. Some (Inr (beforeIlst @ ilst))))
     | Some ilstAtom \<Rightarrow>
         bind_result (parseMP4Atoms fileBuffer (dataOffset ilstAtom) (Some (size ilstAtom - 8)))
           (\<lambda>ilstChildren.
         case find (\<lambda>a. atype a = ascii ''----'') ilstChildren of
           Some existingKaid \<Rightarrow>
             (let beforeKaid = bslice fileBuffer (dataOffset ilstAtom) (offset existingKaid);
                  afterKaid = bslice fileBuffer (offset existingKaid + size existingKaid)
                                (offset ilstAtom + size ilstAtom);
                  newIlstData = beforeKaid @ kaidAtomData @ afterKaid
              in bind_result (Some (createAtom (ascii ''ilst'') newIlstData))
                   (\<lambda>newIlst.
                      let beforeIlst = bslice fileBuffer (dataOffset metaAtom) (offset ilstAtom);
                          afterIlst = bslice fileBuffer (offset ilstAtom + size ilstAtom)
                                        (offset metaAtom + size metaAtom)
                      in Some (Inr (beforeIlst @ newIlst @ afterIlst))))
         | None \<Rightarrow>
             (let beforeNewKaid = bslice fileBuffer (dataOffset ilstAtom)
                                    (dataOffset ilstAtom + size ilstAtom - 8);
                  newIlstData = beforeNewKaid @ kaidAtomData
              in bind_result (Some (createAtom (ascii ''ilst'') newIlstData))
                   (\<lambda>newIlst.
                      let beforeIlst = bslice fileBuffer (dataOffset metaAtom) (offset ilstAtom);
                          afterIlst = bslice fileBuffer (offset ilstAtom + size ilstAtom)
                                        (offset metaAtom + size metaAtom)
                      in Some (Inr (beforeIlst @ newIlst @ afterIlst))))))"

definition newMoovData :: "buffer \<Rightarrow> atom \<Rightarrow> buffer \<Rightarrow> (error + buffer) option" where
  \<comment> \<open>the value of \<^verbatim>\<open>newMoovData\<close> in \<^verbatim>\<open>injectKaidAtom\<close>: the payload of the moov box
      with the kaid atom put into \<^verbatim>\<open>udta\<close>\<close>
  "newMoovData fileBuffer moovAtom kaidAtomData =
     bind_result (parseMP4Atoms fileBuffer (dataOffset moovAtom) (Some (size moovAtom - 8)))
       (\<lambda>moovChildren.
     case find (\<lambda>a. atype a = ascii ''udta'') moovChildren of
       None \<Rightarrow>
         bind_result (Some (createMetaIlstKaidStructure kaidAtomData)) (\<lambda>metaIlstKaid.
         bind_result (Some (createAtom (ascii ''udta'') metaIlstKaid)) (\<lambda>udtaData.
           let moovDataEnd = dataOffset moovAtom + size moovAtom - 8;
               beforeUdta = bslice fileBuffer (dataOffset moovAtom) moovDataEnd
           in Some (Inr (beforeUdta @ udtaData))))
     | Some udtaAtom \<Rightarrow>
         bind_result (parseMP4Atoms fileBuffer (dataOffset udtaAtom) (Some (size udtaAtom - 8)))
           (\<lambda>udtaChildren.
         case find (\<lambda>a. atype a = ascii ''meta'') udtaChildren of
           None \<Rightarrow>
             bind_result (Some (createMetaIlstKaidStructure kaidAtomData)) (\<lambda>metaIlstKaid.
               let beforeMeta = bslice fileBuffer (dataOffset udtaAtom)
                                  (offset udtaAtom + size udtaAtom);
                   newUdtaData = beforeMeta @ metaIlstKaid
               in bind_result (Some (createAtom (ascii ''udta'') newUdtaData)) (\<lambda>newUdta.
                    let beforeUdta = bslice fileBuffer (dataOffset moovAtom) (offset udtaAtom);
                        afterUdta = bslice fileBuffer (offset udtaAtom + size udtaAtom)
                                      (offset moovAtom + size moovAtom)
                    in Some (Inr (beforeUdta @ newUdta @ afterUdta))))
         | Some metaAtom \<Rightarrow>
             bind_result (updateMetaWithKaid fileBuffer metaAtom kaidAtomData) (\<lambda>newMetaData.
             bind_result (Some (createAtom (ascii ''meta'') newMetaData)) (\<lambda>newMeta.
               let beforeMeta = bslice fileBuffer (dataOffset udtaAtom) (offset metaAtom);
                   afterMeta = bslice fileBuffer (offset metaAtom + size metaAtom)
                                 (offset udtaAtom + size udtaAtom);
                   newUdtaData = beforeMeta @ newMeta @ afterMeta
               in bind_result (Some (createAtom (ascii ''udta'') newUdtaData)) (\<lambda>newUdta.
                    let beforeUdta = bslice fileBuffer (dataOffset moovAtom) (offset udtaAtom);
                        afterUdta = bslice fileBuffer (offset udtaAtom + size udtaAtom)
                                      (offset moovAtom + size moovAtom)
                    in Some (Inr (beforeUdta @ newUdta @ afterUdta)))))))"

definition fixChunkOffsets :: "buffer \<Rightarrow> atom \<Rightarrow> (error + buffer) option" where
  \<comment> \<open>lines 152 to 168 of \<^verbatim>\<open>injectKaidAtom\<close>: the new moov box after the call of
      \<^verbatim>\<open>updateChunkOffsets\<close>, which is made when the size delta is not 0\<close>
  "fixChunkOffsets newMoov moovAtom =
     (let oldMoovSize = size moovAtom;
          newMoovSize = blen newMoov;
          sizeDelta = newMoovSize - oldMoovSize
      in if sizeDelta \<noteq> 0 then
           (let originalMoovEnd = offset moovAtom + oldMoovSize
            in map_option (\<lambda>st. Inr (buf st)) (updateChunkOffsets newMoov sizeDelta originalMoovEnd))
         else Some (Inr newMoov))"

definition newFileBuffer :: "buffer \<Rightarrow> jsstring \<Rightarrow> (error + buffer) option" where
  \<comment> \<open>the value of \<^verbatim>\<open>newFileBuffer\<close> in \<^verbatim>\<open>injectKaidAtom\<close>, from the bytes read\<close>
  "newFileBuffer fileBuffer kaidJson =
     bind_result (parseMP4Atoms fileBuffer 0 None) (\<lambda>atoms.
     case find (\<lambda>a. atype a = ascii ''moov'') atoms of
       None \<Rightarrow> Some (Inl NoMoovAtom)
     | Some moovAtom \<Rightarrow>
         bind_result (Some (createKaidAtom kaidJson)) (\<lambda>kaidAtomData.
         bind_result (newMoovData fileBuffer moovAtom kaidAtomData) (\<lambda>moovData.
         bind_result (Some (createAtom (ascii ''moov'') moovData)) (\<lambda>newMoov0.
         bind_result (fixChunkOffsets newMoov0 moovAtom) (\<lambda>newMoov.
           let beforeMoov = bslice fileBuffer 0 (offset moovAtom);
               afterMoov = bslice_from fileBuffer (offset moovAtom + size moovAtom)
           in Some (Inr (beforeMoov @ newMoov @ afterMoov)))))))"

text \<open>
  The file system: the contents of the files, the operations made so far, in order,
  and what the operating system does with a read of or a write to a path.
  \<^verbatim>\<open>fs.promises.readFile\<close> rejects when the path does not exist (\<^verbatim>\<open>ENOENT\<close>) or cannot
  be read. \<^verbatim>\<open>fs.promises.writeFile\<close> opens the path for writing, which truncates the
  file, stores the bytes and closes it: it completes, or it rejects before the file
  is opened (\<^verbatim>\<open>EACCES\<close>, \<^verbatim>\<open>EISDIR\<close>, ...) and nothing changes, or it rejects after \<open>k\<close>
  bytes were stored (\<^verbatim>\<open>ENOSPC\<close>, \<^verbatim>\<open>EIO\<close>, ...) and the file holds those \<open>k\<close> bytes.
\<close>

datatype fs_op = ReadFile string | WriteFile string buffer | ParseFile string

datatype write_outcome =
    Completes
  | OpenFails string          \<comment> \<open>the code of the error\<close>
  | WriteFails string nat     \<comment> \<open>the code of the error, and the number of bytes stored\<close>

record fs =
  files :: "string \<Rightarrow> buffer option"
  ops :: "fs_op list"
  on_read :: "string \<Rightarrow> string option"   \<comment> \<open>the code with which a read is rejected\<close>
  on_write :: "string \<Rightarrow> write_outcome"

definition readFile :: "string \<Rightarrow> fs \<Rightarrow> (error + buffer) \<times> fs" where
  "readFile path s =
     ((case on_read s path of
         Some code \<Rightarrow> Inl (SystemError code)
       | None \<Rightarrow>
           (case files s path of None \<Rightarrow> Inl (SystemError ''ENOENT'') | Some b \<Rightarrow> Inr b)),
      s\<lparr>ops := ops s @ [ReadFile path]\<rparr>)"

definition writeFile :: "string \<Rightarrow> buffer \<Rightarrow> fs \<Rightarrow> (error + unit) \<times> fs" where
  "writeFile path b s =
     (case on_write s path of
        Completes \<Rightarrow>
          (Inr (), s\<lparr>files := (files s)(path \<mapsto> b), ops := ops s @ [WriteFile path b]\<rparr>)
      | OpenFails code \<Rightarrow>
          (Inl (SystemError code), s\<lparr>ops := ops s @ [WriteFile path b]\<rparr>)
      | WriteFails code k \<Rightarrow>
          (Inl (SystemError code),
           s\<lparr>files := (files s)(path \<mapsto> take k b), ops := ops s @ [WriteFile path b]\<rparr>))"

definition injectKaidAtom ::
  "string \<Rightarrow> string \<Rightarrow> jsstring \<Rightarrow> fs \<Rightarrow> (error + unit) option \<times> fs" where
  \<comment> \<open>the \<^verbatim>\<open>catch\<close> wraps every exception of the body\<close>
  "injectKaidAtom inputPath outputPath kaidJson s =
     (case readFile inputPath s of
        (Inl e, s1) \<Rightarrow> (Some (Inl (FailedToInject e)), s1)
      | (Inr fileBuffer, s1) \<Rightarrow>
          (case newFileBuffer fileBuffer kaidJson of
             None \<Rightarrow> (None, s1)
           | Some (Inl e) \<Rightarrow> (Some (Inl (FailedToInject e)), s1)
           | Some (Inr newBuffer) \<Rightarrow>
               (case writeFile outputPath newBuffer s1 of
                  (Inl e, s2) \<Rightarrow> (Some (Inl (FailedToInject e)), s2)
                | (Inr u, s2) \<Rightarrow> (Some (Inr ()), s2))))"

section \<open>\<^verbatim>\<open>prepareKaidData\<close> and \<^verbatim>\<open>save\<close>\<close>

text \<open>
  The song data is a JavaScript value as it arrives over IPC: \<^verbatim>\<open>undefined\<close>, \<^verbatim>\<open>null\<close>,
  booleans, numbers (a finite number as a real; NaN and the two infinities apart),
  strings, arrays, and plain objects with their own properties in order. No value is a
  function.
\<close>

datatype jsval =
    Undefined | Null | Bool bool | Num real | NaN | PosInfinity | NegInfinity
  | Str jsstring | Arr "jsval list" | Obj "(string \<times> jsval) list"

fun truthy :: "jsval \<Rightarrow> bool" where
  "truthy Undefined = False"
| "truthy Null = False"
| "truthy (Bool b) = b"
| "truthy (Num r) = (r \<noteq> 0)"
| "truthy NaN = False"
| "truthy PosInfinity = True"
| "truthy NegInfinity = True"
| "truthy (Str s) = (s \<noteq> [])"
| "truthy (Arr xs) = True"
| "truthy (Obj kvs) = True"

definition js_or :: "jsval \<Rightarrow> jsval \<Rightarrow> jsval" where
  \<comment> \<open>\<^verbatim>\<open>a || b\<close>\<close>
  "js_or a b = (if truthy a then a else b)"

fun property :: "jsval \<Rightarrow> string \<Rightarrow> error + jsval" where
  \<comment> \<open>\<^verbatim>\<open>v.k\<close>: a TypeError on \<^verbatim>\<open>undefined\<close> and \<^verbatim>\<open>null\<close>, \<^verbatim>\<open>undefined\<close> for a
      property that is not there\<close>
  "property Undefined k = Inl TypeError"
| "property Null k = Inl TypeError"
| "property (Obj kvs) k = Inr (case map_of kvs k of None \<Rightarrow> Undefined | Some v \<Rightarrow> v)"
| "property (Arr xs) k = Inr (if k = ''length'' then Num (real (length xs)) else Undefined)"
| "property (Str s) k = Inr (if k = ''length'' then Num (real (length s)) else Undefined)"
| "property v k = Inr Undefined"

definition opt_property :: "jsval \<Rightarrow> string \<Rightarrow> jsval" where
  \<comment> \<open>\<^verbatim>\<open>v?.k\<close>\<close>
  "opt_property v k = (case property v k of Inl e \<Rightarrow> Undefined | Inr x \<Rightarrow> x)"

text \<open>
  The comparison \<^verbatim>\<open>v > 0\<close> (ECMAScript, IsLessThan). The left operand is converted by
  ToPrimitive and ToNumber, and the comparison is false for NaN.

  \<^item> A string is read by StringToNumber: white space around it is dropped; the empty
    string is 0; otherwise it must be a decimal literal (an optional sign, then
    \<^verbatim>\<open>Infinity\<close> or digits with an optional fraction and exponent) or an unsigned
    binary, octal or hexadecimal literal, else it is NaN. \<open>string_gt0\<close> says whether
    the number read is above 0: a decimal literal \<open>m \<times> 10^e\<close> is, when it does not
    round to 0 as a double, that is when it is above \<open>2^-1075\<close>.
  \<^item> An array is converted by \<^verbatim>\<open>join\<close>: \<^verbatim>\<open>undefined\<close> and \<^verbatim>\<open>null\<close> elements give the
    empty string, every other element its ToString, with commas between them. With two
    or more elements the string holds a comma and is NaN; with one element it is the
    string of that element, and the string of a number reads back as that number.
  \<^item> A plain object is converted by \<^verbatim>\<open>Object.prototype.toString\<close> to
    \<^verbatim>\<open>[object Object]\<close>, which is NaN. An own property \<^verbatim>\<open>toString\<close> hides that method
    and is not a function: the conversion throws a TypeError.
\<close>

definition white_space :: "int \<Rightarrow> bool" where
  \<comment> \<open>the code units of WhiteSpace and LineTerminator\<close>
  "white_space c \<longleftrightarrow>
     c \<in> set [9, 10, 11, 12, 13, 32, 160, 5760, 8232, 8233, 8239, 8287, 12288, 65279] \<or>
     (8192 \<le> c \<and> c \<le> 8202)"

definition trim :: "int list \<Rightarrow> int list" where
  "trim cs = rev (dropWhile white_space (rev (dropWhile white_space cs)))"

definition digit :: "int \<Rightarrow> bool" where
  "digit c \<longleftrightarrow> 48 \<le> c \<and> c \<le> 57"

definition hex_digit :: "int \<Rightarrow> bool" where
  "hex_digit c \<longleftrightarrow> digit c \<or> (97 \<le> c \<and> c \<le> 102) \<or> (65 \<le> c \<and> c \<le> 70)"

definition digits_value :: "int list \<Rightarrow> int" where
  "digits_value ds = foldl (\<lambda>a c. a * 10 + (c - 48)) 0 ds"

definition rounds_above_zero :: "int \<Rightarrow> int \<Rightarrow> bool" where
  \<comment> \<open>\<open>m \<times> 10^e\<close> is above \<open>2^-1075\<close>, half the least positive double\<close>
  "rounds_above_zero m e =
     (if 0 \<le> e then 0 < m else 10 ^ nat (- e) < m * 2 ^ 1075)"

definition decimal_gt0 :: "int list \<Rightarrow> bool" where
  \<comment> \<open>an unsigned decimal literal with a value above 0: \<open>ip\<close> the digits before the
      point (code 46), \<open>fp\<close> those after it, \<open>ed\<close> the digits of the exponent after
      \<^verbatim>\<open>e\<close> or \<^verbatim>\<open>E\<close> (codes 101, 69) and its sign (codes 43, 45)\<close>
  "decimal_gt0 cs =
     (let ip = takeWhile digit cs;
          r1 = dropWhile digit cs;
          dot = (r1 \<noteq> [] \<and> hd r1 = 46);
          fp = (if dot then takeWhile digit (tl r1) else []);
          r2 = (if dot then dropWhile digit (tl r1) else r1);
          ex = (r2 \<noteq> [] \<and> (hd r2 = 101 \<or> hd r2 = 69));
          r3 = (if ex then tl r2 else r2);
          minus = (r3 \<noteq> [] \<and> hd r3 = 45);
          ed = (if r3 \<noteq> [] \<and> (hd r3 = 43 \<or> hd r3 = 45) then tl r3 else r3)
      in (ip \<noteq> [] \<or> fp \<noteq> []) \<and>
         (if ex
          then ed \<noteq> [] \<and> list_all digit ed \<and>
               rounds_above_zero (digits_value (ip @ fp))
                 ((if minus then - digits_value ed else digits_value ed) - int (length fp))
          else r2 = [] \<and> rounds_above_zero (digits_value (ip @ fp)) (- int (length fp))))"

definition radix_gt0 :: "int list \<Rightarrow> bool" where
  \<comment> \<open>\<^verbatim>\<open>0x\<close>, \<^verbatim>\<open>0o\<close> or \<^verbatim>\<open>0b\<close> (in either case) and digits of that base, not all 0\<close>
  "radix_gt0 cs =
     (case cs of
        z # x # ds \<Rightarrow>
          z = 48 \<and> ds \<noteq> [] \<and>
          ((x = 120 \<or> x = 88) \<and> list_all hex_digit ds \<or>
           (x = 111 \<or> x = 79) \<and> list_all (\<lambda>d. 48 \<le> d \<and> d \<le> 55) ds \<or>
           (x = 98 \<or> x = 66) \<and> list_all (\<lambda>d. 48 \<le> d \<and> d \<le> 49) ds) \<and>
          \<not> list_all (\<lambda>d. d = 48) ds
      | _ \<Rightarrow> False)"

definition string_gt0 :: "jsstring \<Rightarrow> bool" where
  \<comment> \<open>a literal with the sign \<^verbatim>\<open>-\<close> (code 45) is never above 0\<close>
  "string_gt0 s =
     (let cs = trim (map uint s) in
      if cs = [] \<or> hd cs = 45 then False
      else (let u = (if hd cs = 43 then tl cs else cs)
            in u = map uint (js ''Infinity'') \<or> decimal_gt0 u \<or> radix_gt0 cs))"

fun to_string_throws :: "jsval \<Rightarrow> bool" where
  \<comment> \<open>the conversion of the value to a primitive throws\<close>
  "to_string_throws (Arr xs) = list_ex to_string_throws xs"
| "to_string_throws (Obj kvs) = (''toString'' \<in> set (map fst kvs))"
| "to_string_throws v = False"

fun joined_gt0 :: "jsval list \<Rightarrow> bool" where
  \<comment> \<open>the string of an array with these elements reads as a number above 0\<close>
  "joined_gt0 [Num r] = (r > 0)"
| "joined_gt0 [PosInfinity] = True"
| "joined_gt0 [Str s] = string_gt0 s"
| "joined_gt0 [Arr xs] = joined_gt0 xs"
| "joined_gt0 xs = False"

definition js_gt0 :: "jsval \<Rightarrow> error + bool" where
  \<comment> \<open>\<^verbatim>\<open>v > 0\<close>\<close>
  "js_gt0 v =
     (if to_string_throws v then Inl TypeError
      else Inr (case v of
                  Bool b \<Rightarrow> b
                | Num r \<Rightarrow> r > 0
                | PosInfinity \<Rightarrow> True
                | Str s \<Rightarrow> string_gt0 s
                | Arr xs \<Rightarrow> joined_gt0 xs
                | _ \<Rightarrow> False))"

definition spread_if :: "jsval \<Rightarrow> (string \<times> jsval) list \<Rightarrow> (string \<times> jsval) list" where
  \<comment> \<open>\<^verbatim>\<open>...(c && { ... })\<close>: the properties when \<open>c\<close> is truthy, nothing otherwise\<close>
  "spread_if c kvs = (if truthy c then kvs else [])"

fun map_array :: "('a \<Rightarrow> error + 'b) \<Rightarrow> 'a list \<Rightarrow> error + 'b list" where
  \<comment> \<open>\<^verbatim>\<open>Array.prototype.map\<close> with a callback that can throw\<close>
  "map_array f [] = Inr []"
| "map_array f (x # xs) =
     (case f x of
        Inl e \<Rightarrow> Inl e
      | Inr y \<Rightarrow> (case map_array f xs of Inl e \<Rightarrow> Inl e | Inr ys \<Rightarrow> Inr (y # ys)))"

definition js_map :: "jsval \<Rightarrow> (jsval \<Rightarrow> nat \<Rightarrow> error + jsval) \<Rightarrow> error + jsval" where
  \<comment> \<open>\<^verbatim>\<open>v.map((x, index) => ...)\<close>: a TypeError when \<open>v\<close> is not an array\<close>
  "js_map v f =
     (case v of
        Arr xs \<Rightarrow>
          (case map_array (\<lambda>(x, i). f x i) (zip xs [0..<length xs]) of
             Inl e \<Rightarrow> Inl e
           | Inr ys \<Rightarrow> Inr (Arr ys))
      | _ \<Rightarrow> Inl TypeError)"

definition source_entry :: "jsval \<Rightarrow> nat \<Rightarrow> error + jsval" where
  "source_entry source index =
     (case property source ''name'' of
        Inl e \<Rightarrow> Inl e
      | Inr name \<Rightarrow>
          Inr (Obj [(''id'', js_or name (opt_property source ''filename'')),
                    (''role'', js_or name (opt_property source ''filename'')),
                    (''track'', if opt_property source ''trackIndex'' \<noteq> Undefined
                                then opt_property source ''trackIndex'' else Num (real index))]))"

definition line_entry :: "jsval \<Rightarrow> nat \<Rightarrow> error + jsval" where
  "line_entry line index =
     (case property line ''start'' of
        Inl e \<Rightarrow> Inl e
      | Inr start \<Rightarrow>
          Inr (Obj ([(''start'', js_or start (js_or (opt_property line ''startTimeSec'') (Num 0))),
                     (''end'', js_or (opt_property line ''end'')
                                 (js_or (opt_property line ''endTimeSec'') (Num 0))),
                     (''text'', js_or (opt_property line ''text'') (Str []))]
                    @ spread_if (opt_property line ''disabled'') [(''disabled'', Bool True)])))"

definition prepareKaidData :: "jsval \<Rightarrow> error + jsval" where
  "prepareKaidData songData =
     (case property songData ''audio'' of
        Inl e \<Rightarrow> Inl e
      | Inr audio \<Rightarrow>
     (case js_map (js_or (opt_property audio ''sources'') (Arr [])) source_entry of
        Inl e \<Rightarrow> Inl e
      | Inr sources \<Rightarrow>
     (case js_map (js_or (opt_property songData ''lyrics'') (Arr [])) line_entry of
        Inl e \<Rightarrow> Inl e
      | Inr lines \<Rightarrow>
          (let timing = opt_property audio ''timing'';
               features = opt_property songData ''features'';
               singers = opt_property songData ''singers''
           in case (if truthy singers
                    then (case js_gt0 (opt_property singers ''length'') of
                            Inl e \<Rightarrow> Inl e
                          | Inr c \<Rightarrow> Inr (Bool c))
                    else Inr singers) of
                Inl e \<Rightarrow> Inl e
              | Inr hasSingers \<Rightarrow>
           Inr (Obj
             ([(''audio'', Obj
                  [(''sources'', sources),
                   (''profile'', js_or (opt_property audio ''profile'')
                                   (js_or (opt_property (opt_property songData ''meta'') ''profile'')
                                      (Str (js ''STEMS-4'')))),
                   (''encoder_delay_samples'',
                      js_or (opt_property timing ''encoderDelaySamples'') (Num 0)),
                   (''presets'', js_or (opt_property audio ''presets'') (Arr []))]),
               (''timing'', Obj [(''offset_sec'', js_or (opt_property timing ''offsetSec'') (Num 0))]),
               (''lines'', lines)]
              @ spread_if (opt_property features ''vocalPitch'')
                  [(''vocal_pitch'', opt_property features ''vocalPitch'')]
              @ spread_if (opt_property features ''onsets'') [(''onsets'', opt_property features ''onsets'')]
              @ spread_if (opt_property features ''tempo'') [(''meter'', opt_property features ''tempo'')]
              @ spread_if hasSingers [(''singers'', singers)]))))))"

datatype save_result = Success | Failure error

definition validate :: "string \<Rightarrow> fs \<Rightarrow> fs" where
  \<comment> \<open>\<^verbatim>\<open>validate\<close> has the file parsed by the library \<^verbatim>\<open>music-metadata\<close> and catches
      every exception; \<^verbatim>\<open>save\<close> only logs its answer\<close>
  "validate m4aPath s = s\<lparr>ops := ops s @ [ParseFile m4aPath]\<rparr>"

definition save ::
  "(jsval \<Rightarrow> jsstring) \<Rightarrow> jsval \<Rightarrow> string \<Rightarrow> fs \<Rightarrow> save_result option \<times> fs" where
  \<comment> \<open>\<open>stringify\<close> stands for the built-in \<^verbatim>\<open>JSON.stringify\<close>. \<^verbatim>\<open>Object.keys(songData)\<close>
      in the first log line throws on \<^verbatim>\<open>undefined\<close> and \<^verbatim>\<open>null\<close>.\<close>
  "save stringify songData outputPath s =
     (if songData = Undefined \<or> songData = Null then (Some (Failure TypeError), s)
      else
        (case prepareKaidData songData of
           Inl e \<Rightarrow> (Some (Failure e), s)
         | Inr kaidData \<Rightarrow>
             (let kaidJson = stringify kaidData in
              case injectKaidAtom outputPath outputPath kaidJson s of
                (None, s1) \<Rightarrow> (None, s1)
              | (Some (Inl e), s1) \<Rightarrow> (Some (Failure e), s1)
              | (Some (Inr u), s1) \<Rightarrow> (Some Success, validate outputPath s1))))"

section \<open>Properties of the accessors\<close>

lemma be_val_nonneg_aux:
  "0 \<le> acc \<Longrightarrow> 0 \<le> foldl (\<lambda>acc x. acc * 256 + uint (x::byte)) acc bs"
  by (induction bs arbitrary: acc) auto

lemma be_val_nonneg: "0 \<le> be_val bs"
  by (simp add: be_val_def be_val_nonneg_aux)

lemma readUInt32BE_nonneg: "readUInt32BE b off = Inr v \<Longrightarrow> 0 \<le> v"
  by (auto simp: readUInt32BE_def be_val_nonneg split: if_splits)


lemma length_be_bytes [simp]: "length (be_bytes n v) = n"
  by (simp add: be_bytes_def)

lemma length_overwrite:
  "i + length bs \<le> length b \<Longrightarrow> length (overwrite b i bs) = length b"
  by (simp add: overwrite_def)

lemma writeUInt32BE_length: "writeUInt32BE b v off = Inr b' \<Longrightarrow> length b' = length b"
  by (auto simp: writeUInt32BE_def blen_def length_overwrite split: if_splits)

lemma writeBigUInt64BE_length:
  "writeBigUInt64BE b v off = Inr b' \<Longrightarrow> length b' = length b"
  by (auto simp: writeBigUInt64BE_def blen_def length_overwrite split: if_splits)

section \<open>The atom walks return\<close>

lemma parse_loop_returns: "\<exists>r. parse_loop b e pos acc = Some r"
proof (induction "nat (e - 8 - pos)" arbitrary: pos acc rule: less_induct)
  case less
  show ?case
  proof (cases "pos < e - 8")
    case False
    then show ?thesis by (subst parse_loop.simps) simp
  next
    case True
    show ?thesis
    proof (cases "readUInt32BE b pos")
      case (Inl err)
      with True show ?thesis by (subst parse_loop.simps) simp
    next
      case (Inr sz)
      then have nn: "0 \<le> sz" by (rule readUInt32BE_nonneg)
      show ?thesis
      proof (cases "sz = 0 \<or> sz > blen b - pos")
        case True
        with \<open>pos < e - 8\<close> Inr show ?thesis by (subst parse_loop.simps) simp
      next
        case False
        with nn have "nat (e - 8 - (pos + sz)) < nat (e - 8 - pos)"
          using \<open>pos < e - 8\<close> by linarith
        from less[OF this] obtain r where
          "parse_loop b e (pos + sz)
             (acc @ [\<lparr>atype = type_at b pos, offset = pos, size = sz,
                      dataOffset = pos + 8\<rparr>]) = Some r"
          by blast
        with False \<open>pos < e - 8\<close> Inr show ?thesis by (subst parse_loop.simps) simp
      qed
    qed
  qed
qed

lemma stco_entries_length:
  "length (buf (fst (stco_entries d t pos n i st))) = length (buf st)"
proof (induction d t pos n i st rule: stco_entries.induct)
  case (1 d t pos n i st)
  then show ?case
    by (subst stco_entries.simps)
       (auto simp: Let_def split: sum.splits dest: writeUInt32BE_length)
qed

lemma co64_entries_length:
  "length (buf (fst (co64_entries d t pos n i st))) = length (buf st)"
proof (induction d t pos n i st rule: co64_entries.induct)
  case (1 d t pos n i st)
  then show ?case
    by (subst co64_entries.simps)
       (auto simp: Let_def split: sum.splits dest: writeBigUInt64BE_length)
qed

text \<open>
  The search returns on every buffer and every range, and the buffer keeps its length.
  The measure is \<open>end - pos\<close>: a step moves on by 8 bytes or by a size of at least 8,
  and the recursive call is on a range of \<open>sz - 8 < end - pos\<close> bytes.
\<close>

lemma searchAtoms_returns:
  "\<exists>st'. searchAtoms d t pos e st = Some st' \<and> length (buf st') = length (buf st)"
proof (induction "nat (e - pos)" arbitrary: pos e st rule: less_induct)
  case less
  note IH = less
  show ?case
  proof (cases "pos < e - 8 \<and> pos < blen (buf st) - 8")
    case False
    then show ?thesis by (subst searchAtoms.simps) auto
  next
    case True
    have step8: "\<exists>st'. searchAtoms d t (pos + 8) e s = Some st' \<and>
                   length (buf st') = length (buf s)" for s
      using True by (intro IH) linarith
    show ?thesis
    proof (cases "readUInt32BE (buf st) pos")
      case (Inl err)
      with True step8[of st] show ?thesis by (subst searchAtoms.simps) auto
    next
      case (Inr sz)
      show ?thesis
      proof (cases "sz < 8 \<or> sz > e - pos")
        case True
        with \<open>pos < e - 8 \<and> pos < blen (buf st) - 8\<close> Inr step8[of st] show ?thesis
          by (subst searchAtoms.simps) auto
      next
        case False
        have stepsz: "\<exists>st'. searchAtoms d t (pos + sz) e s = Some st' \<and>
                        length (buf st') = length (buf s)" for s
          using True False by (intro IH) linarith
        have inner: "\<exists>st'. searchAtoms d t (pos + 8) (pos + sz) s = Some st' \<and>
                       length (buf st') = length (buf s)" for s
          using True False by (intro IH) linarith
        consider (stco) "type_at (buf st) pos = ascii ''stco''"
          | (co64) "type_at (buf st) pos \<noteq> ascii ''stco''"
                   "type_at (buf st) pos = ascii ''co64''"
          | (cont) "type_at (buf st) pos \<noteq> ascii ''stco''"
                   "type_at (buf st) pos \<noteq> ascii ''co64''"
                   "type_at (buf st) pos \<in> set containers"
          | (other) "type_at (buf st) pos \<noteq> ascii ''stco''"
                    "type_at (buf st) pos \<noteq> ascii ''co64''"
                    "type_at (buf st) pos \<notin> set containers"
          by blast
        then show ?thesis
        proof cases
          case stco
          let ?st1 = "st\<lparr>stcoCount := stcoCount st + 1\<rparr>"
          show ?thesis
          proof (cases "readUInt32BE (buf st) (pos + 12)")
            case (Inl err)
            with True False Inr stco step8[of ?st1] show ?thesis
              by (subst searchAtoms.simps) auto
          next
            case n: (Inr n)
            obtain st2 r where r: "stco_entries d t pos n 0 ?st1 = (st2, r)" by force
            then have len: "length (buf st2) = length (buf st)"
              using stco_entries_length[of d t pos n 0 ?st1] by simp
            show ?thesis
              using True False Inr stco n r len step8[of st2] stepsz[of st2]
              by (subst searchAtoms.simps) (auto split: option.splits)
          qed
        next
          case co64
          let ?st1 = "st\<lparr>co64Count := co64Count st + 1\<rparr>"
          show ?thesis
          proof (cases "readUInt32BE (buf st) (pos + 12)")
            case (Inl err)
            with True False Inr co64 step8[of ?st1] show ?thesis
              by (subst searchAtoms.simps) auto
          next
            case n: (Inr n)
            obtain st2 r where r: "co64_entries d t pos n 0 ?st1 = (st2, r)" by force
            then have len: "length (buf st2) = length (buf st)"
              using co64_entries_length[of d t pos n 0 ?st1] by simp
            show ?thesis
              using True False Inr co64 n r len step8[of st2] stepsz[of st2]
              by (subst searchAtoms.simps) (auto split: option.splits)
          qed
        next
          case cont
          from inner[of st] obtain s1 where
            s1: "searchAtoms d t (pos + 8) (pos + sz) st = Some s1"
                "length (buf s1) = length (buf st)"
            by blast
          with True False Inr cont stepsz[of s1] show ?thesis
            by (subst searchAtoms.simps) auto
        next
          case other
          with True False Inr stepsz[of st] show ?thesis
            by (subst searchAtoms.simps) auto
        qed
      qed
    qed
  qed
qed

text \<open>
  Claim C10. The two atom-walking loops terminate on every input: for every buffer,
  offset and length bound \<^verbatim>\<open>parseMP4Atoms\<close> returns (a list of atoms, or the exception
  of a read outside the buffer), and for every buffer, delta, threshold and range the
  search of \<^verbatim>\<open>updateChunkOffsets\<close> returns a state. Neither is the value \<open>None\<close> of a
  loop that runs forever.
\<close>

theorem atom_walks_terminate:
  "(\<exists>r. parseMP4Atoms b off maxLength = Some r) \<and>
   (\<exists>st'. searchAtoms sizeDelta shiftThreshold pos end st = Some st') \<and>
   (\<exists>st'. updateChunkOffsets moovBuffer sizeDelta shiftThreshold = Some st')"
proof (intro conjI)
  show "\<exists>r. parseMP4Atoms b off maxLength = Some r"
    unfolding parseMP4Atoms_def Let_def by (rule parse_loop_returns)
  show "\<exists>st'. searchAtoms sizeDelta shiftThreshold pos end st = Some st'"
    using searchAtoms_returns[of sizeDelta shiftThreshold pos "end" st] by blast
  show "\<exists>st'. updateChunkOffsets moovBuffer sizeDelta shiftThreshold = Some st'"
    unfolding updateChunkOffsets_def
    using searchAtoms_returns[of sizeDelta shiftThreshold 0 "blen moovBuffer"] by blast
qed

theorem atom_walks_terminate_witness:
  "(\<exists>r. parseMP4Atoms ([0, 0, 0, 0] @ ascii ''moov'') (- 3) (Some 40) = Some r) \<and>
   (\<exists>st'. searchAtoms 1 0 0 16
       \<lparr>buf = [0, 0, 0, 8] @ ascii ''moov'' @ [0, 0, 0, 8] @ ascii ''moov'',
        stcoCount = 0, co64Count = 0, totalUpdated = 0\<rparr> = Some st') \<and>
   (\<exists>st'. updateChunkOffsets
       ([0, 0, 0, 28] @ ascii ''moov'' @ [0, 0, 0, 20] @ ascii ''stco'' @
        [0, 0, 0, 0, 255, 255, 255, 255, 0, 0, 0, 9]) 1 0 = Some st')"
  by (rule atom_walks_terminate)

section \<open>What the parser does with a bad header\<close>





section \<open>The rewrite of the chunk-offset tables\<close>

subsection \<open>Bytes\<close>

lemma same_outside_refl [simp]: "same_outside S b b"
  by (simp add: same_outside_def)

lemma same_outside_sym: "same_outside S b1 b2 \<Longrightarrow> same_outside S b2 b1"
  by (simp add: same_outside_def)

lemma same_outside_trans:
  "same_outside S1 b1 b2 \<Longrightarrow> same_outside S2 b2 b3 \<Longrightarrow> same_outside (S1 \<union> S2) b1 b3"
  by (simp add: same_outside_def)

lemma same_outside_mono: "same_outside S b1 b2 \<Longrightarrow> S \<subseteq> S' \<Longrightarrow> same_outside S' b1 b2"
  by (auto simp: same_outside_def)

lemma same_outside_length: "same_outside S b1 b2 \<Longrightarrow> length b1 = length b2"
  by (simp add: same_outside_def)

lemma same_outside_blen: "same_outside S b1 b2 \<Longrightarrow> blen b1 = blen b2"
  by (simp add: same_outside_def blen_def)

lemma seg_eq:
  assumes "same_outside S b1 b2" and "{p ..< p + int n} \<inter> S = {}" and "0 \<le> p"
  shows "take n (drop (nat p) b1) = take n (drop (nat p) b2)"
proof (rule nth_equalityI)
  show "length (take n (drop (nat p) b1)) = length (take n (drop (nat p) b2))"
    using assms(1) by (simp add: same_outside_def)
next
  fix i assume "i < length (take n (drop (nat p) b1))"
  then have i: "i < n" "nat p + i < length b1" by auto
  then have "int (nat p + i) \<in> {p ..< p + int n}" using assms(3) by auto
  with assms(2) have "int (nat p + i) \<notin> S" by blast
  with assms(1) i have "b1 ! (nat p + i) = b2 ! (nat p + i)" by (simp add: same_outside_def)
  with i assms(1) show "take n (drop (nat p) b1) ! i = take n (drop (nat p) b2) ! i"
    by (simp add: same_outside_def)
qed

lemma readUInt32BE_cong:
  assumes "same_outside S b1 b2" and "{p ..< p + 4} \<inter> S = {}"
  shows "readUInt32BE b1 p = readUInt32BE b2 p"
proof (cases "0 \<le> p")
  case True
  from seg_eq[OF assms(1) _ True, of 4] assms(2)
  have "take 4 (drop (nat p) b1) = take 4 (drop (nat p) b2)" by simp
  then show ?thesis using same_outside_blen[OF assms(1)] by (simp add: readUInt32BE_def)
next
  case False
  then show ?thesis by (simp add: readUInt32BE_def)
qed

lemma type_at_eq: "0 \<le> p \<Longrightarrow> p + 8 \<le> blen b \<Longrightarrow> type_at b p = take 4 (drop (nat (p + 4)) b)"
  by (simp add: type_at_def bslice_def blen_def Let_def min_def nat_diff_distrib)

lemma type_at_cong:
  assumes "same_outside S b1 b2" and "{p + 4 ..< p + 8} \<inter> S = {}" and "0 \<le> p" "p + 8 \<le> blen b1"
  shows "type_at b1 p = type_at b2 p"
proof -
  from seg_eq[OF assms(1), of "p + 4" 4] assms(2,3)
  have "take 4 (drop (nat (p + 4)) b1) = take 4 (drop (nat (p + 4)) b2)"
    by (simp add: add.assoc)
  then show ?thesis
    using assms(3,4) same_outside_blen[OF assms(1)] by (simp add: type_at_eq)
qed

lemma width_pos: "0 < width k"
  by (cases k) auto

lemma entry_at_cong:
  assumes "same_outside S b1 b2"
    and "{p + 16 + i * width k ..< p + 16 + i * width k + width k} \<inter> S = {}"
    and "0 \<le> p + 16 + i * width k"
  shows "entry_at k b1 p i = entry_at k b2 p i"
proof -
  have "int (nat (width k)) = width k" using width_pos[of k] by simp
  with seg_eq[OF assms(1) _ assms(3), of "nat (width k)"] assms(2)
  show ?thesis by (simp add: entry_at_def)
qed

lemma be_val_acc:
  "foldl (\<lambda>acc x. acc * 256 + uint (x::byte)) a xs =
   a * 256 ^ length xs + foldl (\<lambda>acc x. acc * 256 + uint x) 0 xs"
proof (induction xs arbitrary: a)
  case Nil
  show ?case by simp
next
  case (Cons x xs)
  let ?f = "\<lambda>acc x. acc * 256 + uint (x::byte)"
  have 1: "foldl ?f (a * 256 + uint x) xs = (a * 256 + uint x) * 256 ^ length xs + foldl ?f 0 xs"
    by (rule Cons)
  have 2: "foldl ?f (uint x) xs = uint x * 256 ^ length xs + foldl ?f 0 xs"
    by (rule Cons)
  have "foldl ?f a (x # xs) = foldl ?f (a * 256 + uint x) xs" by simp
  moreover have "foldl ?f 0 (x # xs) = foldl ?f (uint x) xs" by simp
  ultimately show ?case
    unfolding 1 2 by (simp add: algebra_simps)
qed

lemma be_val_Cons: "be_val (x # xs) = uint x * 256 ^ length xs + be_val xs"
  using be_val_acc[of "uint x" xs] by (simp add: be_val_def)

lemma be_bytes_Suc: "be_bytes (Suc n) v = word_of_int (v div 256 ^ n) # be_bytes n v"
  by (simp add: be_bytes_def)

lemma be_val_be_bytes: "be_val (be_bytes n v) = v mod 256 ^ n"
proof (induction n)
  case 0
  show ?case by (simp add: be_bytes_def be_val_def)
next
  case (Suc n)
  have "uint (word_of_int (v div 256 ^ n) :: byte) = v div 256 ^ n mod 256"
    by (simp add: uint_word_of_int_eq take_bit_eq_mod)
  moreover have "v mod (256 ^ n * 256) = 256 ^ n * (v div 256 ^ n mod 256) + v mod 256 ^ n"
    by (rule zmod_zmult2_eq) simp
  ultimately show ?case
    by (simp add: be_bytes_Suc be_val_Cons Suc mult.commute)
qed

lemma be_val_be_bytes_4: "0 \<le> v \<Longrightarrow> v < 2 ^ 32 \<Longrightarrow> be_val (be_bytes 4 v) = v"
  by (simp add: be_val_be_bytes)

lemma be_val_be_bytes_8: "0 \<le> v \<Longrightarrow> v < 2 ^ 64 \<Longrightarrow> be_val (be_bytes 8 v) = v"
  by (simp add: be_val_be_bytes)

lemma overwrite_same_outside:
  "i + length bs \<le> length b \<Longrightarrow>
   same_outside {int i ..< int i + int (length bs)} (overwrite b i bs) b"
  by (auto simp: same_outside_def overwrite_def nth_append)

lemma overwrite_seg:
  "i + length bs \<le> length b \<Longrightarrow> take (length bs) (drop i (overwrite b i bs)) = bs"
  by (simp add: overwrite_def)

subsection \<open>One table\<close>

lemma to_double_exact: "0 \<le> x \<Longrightarrow> x < 2 ^ 53 \<Longrightarrow> to_double x = x"
  by (simp add: to_double_def round53_def)

lemma upto_filter_step:
  "i < n \<Longrightarrow> length (filter P [i..n - 1]) = (if P i then 1 else 0) + length (filter P [i + 1..n - 1])"
  by (subst upto_rec1) auto

lemma stco_entries_spec:
  assumes "0 \<le> pos" and "0 \<le> i" and "pos + 16 + n * 4 \<le> blen (buf st)"
    and "\<forall>j. i \<le> j \<and> j < n \<longrightarrow>
           0 \<le> shift d t (entry_at Stco (buf st) pos j) \<and>
           shift d t (entry_at Stco (buf st) pos j) < 2 ^ 32"
  shows "\<exists>st'. stco_entries d t pos n i st = (st', None) \<and>
           same_outside {pos + 16 + i * 4 ..< pos + 16 + n * 4} (buf st') (buf st) \<and>
           (\<forall>j. i \<le> j \<and> j < n \<longrightarrow>
              entry_at Stco (buf st') pos j = shift d t (entry_at Stco (buf st) pos j)) \<and>
           totalUpdated st' = totalUpdated st +
             length (filter (\<lambda>j. t \<le> entry_at Stco (buf st) pos j) [i..n - 1]) \<and>
           stcoCount st' = stcoCount st \<and> co64Count st' = co64Count st"
  using assms
proof (induction "nat (n - i)" arbitrary: i st rule: less_induct)
  case less
  show ?case
  proof (cases "i < n")
    case False
    then have "stco_entries d t pos n i st = (st, None)"
      by (subst stco_entries.simps) simp
    moreover have "[i..n - 1] = []" using False by simp
    ultimately show ?thesis using False by auto
  next
    case True
    let ?q = "pos + 16 + i * 4"
    let ?o = "entry_at Stco (buf st) pos i"
    have q: "0 \<le> ?q" "?q + 4 \<le> blen (buf st)" using less.prems True by auto
    then have rd: "readUInt32BE (buf st) ?q = Inr ?o"
      by (simp add: readUInt32BE_def entry_at_def)
    have sh: "0 \<le> shift d t ?o" "shift d t ?o < 2 ^ 32"
      using less.prems(4) True by auto
    have meas: "nat (n - (i + 1)) < nat (n - i)" using True by simp
    have disj: "{pos + 16 + j * 4 ..< pos + 16 + j * 4 + 4} \<inter> {?q ..< ?q + 4} = {}"
      if "i + 1 \<le> j" for j using that by auto
    show ?thesis
    proof (cases "t \<le> ?o")
      case False
      from less.prems True have p4: "\<forall>j. i + 1 \<le> j \<and> j < n \<longrightarrow>
           0 \<le> shift d t (entry_at Stco (buf st) pos j) \<and>
           shift d t (entry_at Stco (buf st) pos j) < 2 ^ 32" by auto
      from less.hyps[OF meas less.prems(1) _ less.prems(3) p4] less.prems(2)
      obtain st' where st': "stco_entries d t pos n (i + 1) st = (st', None)"
        "same_outside {pos + 16 + (i + 1) * 4 ..< pos + 16 + n * 4} (buf st') (buf st)"
        "\<forall>j. i + 1 \<le> j \<and> j < n \<longrightarrow>
              entry_at Stco (buf st') pos j = shift d t (entry_at Stco (buf st) pos j)"
        "totalUpdated st' = totalUpdated st +
             length (filter (\<lambda>j. t \<le> entry_at Stco (buf st) pos j) [i + 1..n - 1])"
        "stcoCount st' = stcoCount st" "co64Count st' = co64Count st"
        by auto
      have run: "stco_entries d t pos n i st = (st', None)"
        using True rd False st'(1) by (subst stco_entries.simps) simp
      have so: "same_outside {?q ..< pos + 16 + n * 4} (buf st') (buf st)"
        by (rule same_outside_mono[OF st'(2)]) auto
      have "entry_at Stco (buf st') pos i = ?o"
        by (rule entry_at_cong[OF st'(2)]) (use q in auto)
      then have ei: "entry_at Stco (buf st') pos i = shift d t ?o"
        using False by (simp add: shift_def)
      have ents: "\<forall>j. i \<le> j \<and> j < n \<longrightarrow>
              entry_at Stco (buf st') pos j = shift d t (entry_at Stco (buf st) pos j)"
      proof (intro allI impI)
        fix j assume j: "i \<le> j \<and> j < n"
        show "entry_at Stco (buf st') pos j = shift d t (entry_at Stco (buf st) pos j)"
        proof (cases "j = i")
          case True then show ?thesis using ei by simp
        next
          case False with j st'(3) show ?thesis by auto
        qed
      qed
      have cnt: "totalUpdated st' = totalUpdated st +
             length (filter (\<lambda>j. t \<le> entry_at Stco (buf st) pos j) [i..n - 1])"
        using st'(4) False by (simp add: upto_filter_step[OF True])
      show ?thesis using run so ents cnt st'(5,6) by blast
    next
      case ge: True
      then have shv: "shift d t ?o = ?o + d" by (simp add: shift_def)
      with sh have add: "js_add ?o d = ?o + d"
        by (simp add: js_add_def to_double_exact)
      let ?b' = "overwrite (buf st) (nat ?q) (be_bytes 4 (?o + d))"
      let ?st1 = "st\<lparr>buf := ?b', totalUpdated := totalUpdated st + 1\<rparr>"
      have wr: "writeUInt32BE (buf st) (?o + d) ?q = Inr ?b'"
        using sh shv q by (simp add: writeUInt32BE_def)
      have len: "nat ?q + length (be_bytes 4 (?o + d)) \<le> length (buf st)"
        using q by (simp add: blen_def)
      have so1: "same_outside {?q ..< ?q + 4} ?b' (buf st)"
        using overwrite_same_outside[OF len] q by simp
      have blen1: "blen ?b' = blen (buf st)" using same_outside_blen[OF so1] .
      have e1: "entry_at Stco ?b' pos i = ?o + d"
        using overwrite_seg[OF len] sh shv by (simp add: entry_at_def be_val_be_bytes_4)
      have same_later: "entry_at Stco ?b' pos j = entry_at Stco (buf st) pos j" if "i + 1 \<le> j" for j
        by (rule entry_at_cong[OF so1]) (use that q in auto)
      have p4: "\<forall>j. i + 1 \<le> j \<and> j < n \<longrightarrow>
           0 \<le> shift d t (entry_at Stco (buf ?st1) pos j) \<and>
           shift d t (entry_at Stco (buf ?st1) pos j) < 2 ^ 32"
        using less.prems(4) same_later by auto
      have p3: "pos + 16 + n * 4 \<le> blen (buf ?st1)" using less.prems(3) blen1 by simp
      from less.hyps[OF meas less.prems(1) _ p3 p4] less.prems(2)
      obtain st' where st': "stco_entries d t pos n (i + 1) ?st1 = (st', None)"
        "same_outside {pos + 16 + (i + 1) * 4 ..< pos + 16 + n * 4} (buf st') (buf ?st1)"
        "\<forall>j. i + 1 \<le> j \<and> j < n \<longrightarrow>
              entry_at Stco (buf st') pos j = shift d t (entry_at Stco (buf ?st1) pos j)"
        "totalUpdated st' = totalUpdated ?st1 +
             length (filter (\<lambda>j. t \<le> entry_at Stco (buf ?st1) pos j) [i + 1..n - 1])"
        "stcoCount st' = stcoCount ?st1" "co64Count st' = co64Count ?st1"
        by auto
      have run: "stco_entries d t pos n i st = (st', None)"
        using True rd ge add wr st'(1) by (subst stco_entries.simps) (simp add: Let_def)
      have "same_outside ({pos + 16 + (i + 1) * 4 ..< pos + 16 + n * 4} \<union> {?q ..< ?q + 4})
              (buf st') (buf st)"
        using same_outside_trans[OF st'(2)] so1 by simp
      then have so: "same_outside {?q ..< pos + 16 + n * 4} (buf st') (buf st)"
        by (rule same_outside_mono) (use True in auto)
      have "entry_at Stco (buf st') pos i = entry_at Stco ?b' pos i"
        using entry_at_cong[OF st'(2), of pos i Stco] q by auto
      then have ei: "entry_at Stco (buf st') pos i = shift d t ?o"
        using e1 shv by simp
      have ents: "\<forall>j. i \<le> j \<and> j < n \<longrightarrow>
              entry_at Stco (buf st') pos j = shift d t (entry_at Stco (buf st) pos j)"
      proof (intro allI impI)
        fix j assume j: "i \<le> j \<and> j < n"
        show "entry_at Stco (buf st') pos j = shift d t (entry_at Stco (buf st) pos j)"
        proof (cases "j = i")
          case True then show ?thesis using ei by simp
        next
          case False with j st'(3) same_later[of j] show ?thesis by auto
        qed
      qed
      have "filter (\<lambda>j. t \<le> entry_at Stco ?b' pos j) [i + 1..n - 1]
            = filter (\<lambda>j. t \<le> entry_at Stco (buf st) pos j) [i + 1..n - 1]"
        by (rule filter_cong) (use same_later in auto)
      then have cnt: "totalUpdated st' = totalUpdated st +
             length (filter (\<lambda>j. t \<le> entry_at Stco (buf st) pos j) [i..n - 1])"
        using st'(4) ge by (simp add: upto_filter_step[OF True])
      show ?thesis using run so ents cnt st'(5,6) by auto
    qed
  qed
qed

lemma co64_entries_spec:
  assumes "0 \<le> pos" and "0 \<le> i" and "pos + 16 + n * 8 \<le> blen (buf st)"
    and "\<forall>j. i \<le> j \<and> j < n \<longrightarrow>
           entry_at Co64 (buf st) pos j < 2 ^ 53 \<and>
           0 \<le> shift d t (entry_at Co64 (buf st) pos j) \<and>
           shift d t (entry_at Co64 (buf st) pos j) < 2 ^ 53"
  shows "\<exists>st'. co64_entries d t pos n i st = (st', None) \<and>
           same_outside {pos + 16 + i * 8 ..< pos + 16 + n * 8} (buf st') (buf st) \<and>
           (\<forall>j. i \<le> j \<and> j < n \<longrightarrow>
              entry_at Co64 (buf st') pos j = shift d t (entry_at Co64 (buf st) pos j)) \<and>
           totalUpdated st' = totalUpdated st +
             length (filter (\<lambda>j. t \<le> entry_at Co64 (buf st) pos j) [i..n - 1]) \<and>
           stcoCount st' = stcoCount st \<and> co64Count st' = co64Count st"
  using assms
proof (induction "nat (n - i)" arbitrary: i st rule: less_induct)
  case less
  show ?case
  proof (cases "i < n")
    case False
    then have "co64_entries d t pos n i st = (st, None)"
      by (subst co64_entries.simps) simp
    moreover have "[i..n - 1] = []" using False by simp
    ultimately show ?thesis using False by auto
  next
    case True
    let ?q = "pos + 16 + i * 8"
    let ?o = "entry_at Co64 (buf st) pos i"
    have q: "0 \<le> ?q" "?q + 8 \<le> blen (buf st)" using less.prems True by auto
    then have rd: "readBigUInt64BE (buf st) ?q = Inr ?o"
      by (simp add: readBigUInt64BE_def entry_at_def)
    have sh: "0 \<le> shift d t ?o" "shift d t ?o < 2 ^ 53" "?o < 2 ^ 53"
      using less.prems(4) True by auto
    have "0 \<le> ?o" by (simp add: entry_at_def be_val_nonneg)
    then have td: "to_double ?o = ?o" using sh(3) by (rule to_double_exact)
    have meas: "nat (n - (i + 1)) < nat (n - i)" using True by simp
    have disj: "{pos + 16 + j * 8 ..< pos + 16 + j * 8 + 8} \<inter> {?q ..< ?q + 8} = {}"
      if "i + 1 \<le> j" for j using that by auto
    show ?thesis
    proof (cases "t \<le> ?o")
      case False
      from less.prems True have p4: "\<forall>j. i + 1 \<le> j \<and> j < n \<longrightarrow>
           entry_at Co64 (buf st) pos j < 2 ^ 53 \<and>
           0 \<le> shift d t (entry_at Co64 (buf st) pos j) \<and>
           shift d t (entry_at Co64 (buf st) pos j) < 2 ^ 53" by auto
      from less.hyps[OF meas less.prems(1) _ less.prems(3) p4] less.prems(2)
      obtain st' where st': "co64_entries d t pos n (i + 1) st = (st', None)"
        "same_outside {pos + 16 + (i + 1) * 8 ..< pos + 16 + n * 8} (buf st') (buf st)"
        "\<forall>j. i + 1 \<le> j \<and> j < n \<longrightarrow>
              entry_at Co64 (buf st') pos j = shift d t (entry_at Co64 (buf st) pos j)"
        "totalUpdated st' = totalUpdated st +
             length (filter (\<lambda>j. t \<le> entry_at Co64 (buf st) pos j) [i + 1..n - 1])"
        "stcoCount st' = stcoCount st" "co64Count st' = co64Count st"
        by auto
      have run: "co64_entries d t pos n i st = (st', None)"
        using True rd False st'(1) td by (subst co64_entries.simps) (simp add: Let_def)
      have so: "same_outside {?q ..< pos + 16 + n * 8} (buf st') (buf st)"
        by (rule same_outside_mono[OF st'(2)]) auto
      have "entry_at Co64 (buf st') pos i = ?o"
        by (rule entry_at_cong[OF st'(2)]) (use q in auto)
      then have ei: "entry_at Co64 (buf st') pos i = shift d t ?o"
        using False by (simp add: shift_def)
      have ents: "\<forall>j. i \<le> j \<and> j < n \<longrightarrow>
              entry_at Co64 (buf st') pos j = shift d t (entry_at Co64 (buf st) pos j)"
      proof (intro allI impI)
        fix j assume j: "i \<le> j \<and> j < n"
        show "entry_at Co64 (buf st') pos j = shift d t (entry_at Co64 (buf st) pos j)"
        proof (cases "j = i")
          case True then show ?thesis using ei by simp
        next
          case False with j st'(3) show ?thesis by auto
        qed
      qed
      have cnt: "totalUpdated st' = totalUpdated st +
             length (filter (\<lambda>j. t \<le> entry_at Co64 (buf st) pos j) [i..n - 1])"
        using st'(4) False by (simp add: upto_filter_step[OF True])
      show ?thesis using run so ents cnt st'(5,6) by blast
    next
      case ge: True
      then have shv: "shift d t ?o = ?o + d" by (simp add: shift_def)
      with sh have add: "js_add ?o d = ?o + d"
        by (simp add: js_add_def to_double_exact)
      let ?b' = "overwrite (buf st) (nat ?q) (be_bytes 8 (?o + d))"
      let ?st1 = "st\<lparr>buf := ?b', totalUpdated := totalUpdated st + 1\<rparr>"
      have wr: "writeBigUInt64BE (buf st) (?o + d) ?q = Inr ?b'"
      proof -
        have "(2::int) ^ 53 \<le> 2 ^ 64" by simp
        with sh shv have "?o + d < 2 ^ 64" by linarith
        then show ?thesis using sh shv q by (simp add: writeBigUInt64BE_def)
      qed
      have len: "nat ?q + length (be_bytes 8 (?o + d)) \<le> length (buf st)"
        using q by (simp add: blen_def)
      have so1: "same_outside {?q ..< ?q + 8} ?b' (buf st)"
        using overwrite_same_outside[OF len] q by simp
      have blen1: "blen ?b' = blen (buf st)" using same_outside_blen[OF so1] .
      have e1: "entry_at Co64 ?b' pos i = ?o + d"
      proof -
        have "(2::int) ^ 53 \<le> 2 ^ 64" by simp
        with sh shv have "?o + d < 2 ^ 64" by linarith
        then show ?thesis
          using overwrite_seg[OF len] sh shv by (simp add: entry_at_def be_val_be_bytes_8)
      qed
      have same_later: "entry_at Co64 ?b' pos j = entry_at Co64 (buf st) pos j" if "i + 1 \<le> j" for j
        by (rule entry_at_cong[OF so1]) (use that q in auto)
      have p4: "\<forall>j. i + 1 \<le> j \<and> j < n \<longrightarrow>
           entry_at Co64 (buf ?st1) pos j < 2 ^ 53 \<and>
           0 \<le> shift d t (entry_at Co64 (buf ?st1) pos j) \<and>
           shift d t (entry_at Co64 (buf ?st1) pos j) < 2 ^ 53"
        using less.prems(4) same_later by auto
      have p3: "pos + 16 + n * 8 \<le> blen (buf ?st1)" using less.prems(3) blen1 by simp
      from less.hyps[OF meas less.prems(1) _ p3 p4] less.prems(2)
      obtain st' where st': "co64_entries d t pos n (i + 1) ?st1 = (st', None)"
        "same_outside {pos + 16 + (i + 1) * 8 ..< pos + 16 + n * 8} (buf st') (buf ?st1)"
        "\<forall>j. i + 1 \<le> j \<and> j < n \<longrightarrow>
              entry_at Co64 (buf st') pos j = shift d t (entry_at Co64 (buf ?st1) pos j)"
        "totalUpdated st' = totalUpdated ?st1 +
             length (filter (\<lambda>j. t \<le> entry_at Co64 (buf ?st1) pos j) [i + 1..n - 1])"
        "stcoCount st' = stcoCount ?st1" "co64Count st' = co64Count ?st1"
        by auto
      have run: "co64_entries d t pos n i st = (st', None)"
        using True rd ge add wr st'(1) td by (subst co64_entries.simps) (simp add: Let_def)
      have "same_outside ({pos + 16 + (i + 1) * 8 ..< pos + 16 + n * 8} \<union> {?q ..< ?q + 8})
              (buf st') (buf st)"
        using same_outside_trans[OF st'(2)] so1 by simp
      then have so: "same_outside {?q ..< pos + 16 + n * 8} (buf st') (buf st)"
        by (rule same_outside_mono) (use True in auto)
      have "entry_at Co64 (buf st') pos i = entry_at Co64 ?b' pos i"
        using entry_at_cong[OF st'(2), of pos i Co64] q by auto
      then have ei: "entry_at Co64 (buf st') pos i = shift d t ?o"
        using e1 shv by simp
      have ents: "\<forall>j. i \<le> j \<and> j < n \<longrightarrow>
              entry_at Co64 (buf st') pos j = shift d t (entry_at Co64 (buf st) pos j)"
      proof (intro allI impI)
        fix j assume j: "i \<le> j \<and> j < n"
        show "entry_at Co64 (buf st') pos j = shift d t (entry_at Co64 (buf st) pos j)"
        proof (cases "j = i")
          case True then show ?thesis using ei by simp
        next
          case False with j st'(3) same_later[of j] show ?thesis by auto
        qed
      qed
      have "filter (\<lambda>j. t \<le> entry_at Co64 ?b' pos j) [i + 1..n - 1]
            = filter (\<lambda>j. t \<le> entry_at Co64 (buf st) pos j) [i + 1..n - 1]"
        by (rule filter_cong) (use same_later in auto)
      then have cnt: "totalUpdated st' = totalUpdated st +
             length (filter (\<lambda>j. t \<le> entry_at Co64 (buf st) pos j) [i..n - 1])"
        using st'(4) ge by (simp add: upto_filter_step[OF True])
      show ?thesis using run so ents cnt st'(5,6) by auto
    qed
  qed
qed

subsection \<open>The tables of a range\<close>

lemma tables_stop: "\<not> (pos < e - 8 \<and> pos < blen b - 8) \<Longrightarrow> tables b pos e = []"
  by (subst tables.simps) auto

lemma tables_cong:
  assumes "same_outside S b1 b2" and "\<forall>j\<in>S. j < pos" and "0 \<le> pos"
  shows "tables b1 pos e = tables b2 pos e"
  using assms(2,3)
proof (induction "nat (e - pos)" arbitrary: pos e rule: less_induct)
  case less
  note bl = same_outside_blen[OF assms(1)]
  show ?case
  proof (cases "pos < e - 8 \<and> pos < blen b1 - 8")
    case False
    then have "tables b1 pos e = []" by (rule tables_stop)
    moreover from False bl have "tables b2 pos e = []" by (intro tables_stop) simp
    ultimately show ?thesis by simp
  next
    case True
    have rd: "readUInt32BE b1 pos = readUInt32BE b2 pos"
      by (rule readUInt32BE_cong[OF assms(1)]) (use less.prems in auto)
    have rc: "readUInt32BE b1 (pos + 12) = readUInt32BE b2 (pos + 12)"
      by (rule readUInt32BE_cong[OF assms(1)]) (use less.prems in auto)
    have ty: "type_at b1 pos = type_at b2 pos"
      by (rule type_at_cong[OF assms(1)]) (use less.prems True in auto)
    have s8: "tables b1 (pos + 8) e = tables b2 (pos + 8) e"
      using True less.prems by (intro less.hyps) auto
    show ?thesis
    proof (cases "readUInt32BE b1 pos")
      case (Inl err)
      then show ?thesis using True bl rd s8 by (subst tables.simps[of b1 pos e], subst tables.simps[of b2 pos e]) simp
    next
      case (Inr sz)
      show ?thesis
      proof (cases "sz < 8 \<or> sz > e - pos")
        case True
        then show ?thesis
          using \<open>pos < e - 8 \<and> pos < blen b1 - 8\<close> Inr bl rd s8
          by (subst tables.simps[of b1 pos e], subst tables.simps[of b2 pos e]) simp
      next
        case False
        have ssz: "tables b1 (pos + sz) e = tables b2 (pos + sz) e"
          using True False less.prems by (intro less.hyps) auto
        have inner: "tables b1 (pos + 8) (pos + sz) = tables b2 (pos + 8) (pos + sz)"
          using True False less.prems by (intro less.hyps) auto
        show ?thesis
          using True False Inr bl rd rc ty s8 ssz inner
          by (subst tables.simps[of b1 pos e], subst tables.simps[of b2 pos e]) (simp split: sum.splits)
      qed
    qed
  qed
qed

lemma tables_bounds:
  "(k, p, sz, n) \<in> set (tables b pos e) \<Longrightarrow> pos \<le> p \<and> 8 \<le> sz \<and> p + sz \<le> e"
proof (induction "nat (e - pos)" arbitrary: pos e rule: less_induct)
  case less
  show ?case
  proof (cases "pos < e - 8 \<and> pos < blen b - 8")
    case False
    with less.prems show ?thesis by (simp add: tables_stop)
  next
    case True
    have s8: "pos + 8 \<le> p \<and> 8 \<le> sz \<and> p + sz \<le> e"
      if "(k, p, sz, n) \<in> set (tables b (pos + 8) e)"
      using True that by (intro less.hyps) auto
    show ?thesis
    proof (cases "readUInt32BE b pos")
      case (Inl err)
      with less.prems True s8 show ?thesis
        by (subst (asm) tables.simps[of b pos e]) auto
    next
      case (Inr s)
      show ?thesis
      proof (cases "s < 8 \<or> s > e - pos")
        case True
        with less.prems \<open>pos < e - 8 \<and> pos < blen b - 8\<close> Inr s8 show ?thesis
          by (subst (asm) tables.simps[of b pos e]) auto
      next
        case False
        have ssz: "pos + s \<le> p \<and> 8 \<le> sz \<and> p + sz \<le> e"
          if "(k, p, sz, n) \<in> set (tables b (pos + s) e)"
          using True False that by (intro less.hyps) auto
        have inner: "pos + 8 \<le> p \<and> 8 \<le> sz \<and> p + sz \<le> pos + s"
          if "(k, p, sz, n) \<in> set (tables b (pos + 8) (pos + s))"
          using True False that by (intro less.hyps) auto
        from less.prems True False Inr show ?thesis
          apply (subst (asm) tables.simps[of b pos e])
          apply (simp split: if_splits sum.splits)
          using s8 ssz inner apply auto
          done
      qed
    qed
  qed
qed

lemma tables_in_D:
  "tables_in lo hi ts \<Longrightarrow> (k, p, sz, n) \<in> set ts \<Longrightarrow>
   lo \<le> p \<and> 16 + n * width k \<le> sz \<and> p + sz \<le> hi"
  unfolding tables_in_def by blast

lemma tables_in_append: "tables_in lo hi (ts1 @ ts2) \<longleftrightarrow> tables_in lo hi ts1 \<and> tables_in lo hi ts2"
  by (auto simp: tables_in_def)

lemma tables_in_mono: "tables_in lo hi ts \<Longrightarrow> lo' \<le> lo \<Longrightarrow> hi \<le> hi' \<Longrightarrow> tables_in lo' hi' ts"
  by (fastforce simp: tables_in_def)

lemma region_append: "region (ts1 @ ts2) = region ts1 \<union> region ts2"
  by (auto simp: region_def)

lemma region_tables_in: "tables_in lo hi ts \<Longrightarrow> region ts \<subseteq> {lo ..< hi}"
  by (fastforce simp: tables_in_def region_def)

lemma tables_tables_in:
  "list_all (table_ok d t b) (tables b pos e) \<Longrightarrow> tables_in pos e (tables b pos e)"
  unfolding tables_in_def list_all_iff
  by (auto simp: table_ok_def dest: tables_bounds)

lemma entry_interval:
  assumes "0 \<le> i" "i < n"
  shows "{p + 16 + i * width k ..< p + 16 + i * width k + width k}
         \<subseteq> {p + 16 ..< p + 16 + n * width k}"
  using assms by (cases k) auto

lemma entry_at_same:
  assumes "same_outside S b1 b2" and "S \<inter> region ts = {}" and "(k, p, sz, n) \<in> set ts"
    and "0 \<le> p" and "0 \<le> i" and "i < n"
  shows "entry_at k b1 p i = entry_at k b2 p i"
proof (rule entry_at_cong[OF assms(1)])
  have "{p + 16 ..< p + 16 + n * width k} \<subseteq> region ts"
    using assms(3) by (auto simp: region_def)
  with entry_interval[OF assms(5,6), of p k] assms(2)
  show "{p + 16 + i * width k ..< p + 16 + i * width k + width k} \<inter> S = {}" by blast
  show "0 \<le> p + 16 + i * width k" using assms(4,5) width_pos[of k] by simp
qed

lemma entries_cong:
  assumes "same_outside S b1 b2" and "S \<inter> region ts = {}" and "tables_in lo hi ts" and "0 \<le> lo"
  shows "entries b1 ts = entries b2 ts"
proof -
  have "map (entry_at k b1 p) [0..n - 1] = map (entry_at k b2 p) [0..n - 1]"
    if "(k, p, sz, n) \<in> set ts" for k p sz n
  proof (rule map_cong[OF refl])
    fix i assume "i \<in> set [0..n - 1]"
    then have "0 \<le> i" "i < n" by auto
    moreover have "0 \<le> p" using tables_in_D[OF assms(3) that] assms(4) by simp
    ultimately show "entry_at k b1 p i = entry_at k b2 p i"
      using entry_at_same[OF assms(1,2) that] by simp
  qed
  then have "map (\<lambda>(k, p, sz, n). map (entry_at k b1 p) [0..n - 1]) ts
           = map (\<lambda>(k, p, sz, n). map (entry_at k b2 p) [0..n - 1]) ts"
    by (intro map_cong) auto
  then show ?thesis unfolding entries_def by (rule arg_cong[where f = concat])
qed

lemma table_ok_cong:
  assumes "same_outside S b1 b2" and "S \<inter> region ts = {}" and "tables_in lo hi ts" and "0 \<le> lo"
  shows "list_all (table_ok d t b1) ts = list_all (table_ok d t b2) ts"
proof -
  have "table_ok d t b1 x = table_ok d t b2 x" if "x \<in> set ts" for x
  proof -
    obtain k p sz n where x: "x = (k, p, sz, n)" by (cases x) auto
    have "0 \<le> p" using tables_in_D[OF assms(3), of k p sz n] that x assms(4) by simp
    then have "entry_at k b1 p i = entry_at k b2 p i" if "i \<in> set [0..n - 1]" for i
      using entry_at_same[OF assms(1,2), of k p sz n i] that \<open>x \<in> set ts\<close> x by auto
    then show ?thesis
      unfolding x table_ok_def list_all_iff by simp
  qed
  then show ?thesis unfolding list_all_iff by blast
qed

lemma compose_rewrite:
  assumes "same_outside (region ts1) b1 b0" and "entries b1 ts1 = map f (entries b0 ts1)"
    and "same_outside (region ts2) b2 b1" and "entries b2 ts2 = map f (entries b1 ts2)"
    and "tables_in lo mid ts1" and "tables_in mid hi ts2" and "0 \<le> lo" and "lo \<le> mid"
  shows "same_outside (region (ts1 @ ts2)) b2 b0 \<and>
         entries b2 (ts1 @ ts2) = map f (entries b0 (ts1 @ ts2))"
proof -
  have disj: "region ts1 \<inter> region ts2 = {}"
  proof -
    have "{lo ..< mid} \<inter> {mid ..< hi} = {}" by auto
    with region_tables_in[OF assms(5)] region_tables_in[OF assms(6)] show ?thesis by blast
  qed
  have "entries b2 ts1 = entries b1 ts1"
    by (rule entries_cong[OF assms(3) _ assms(5,7)]) (use disj in auto)
  moreover have "entries b1 ts2 = entries b0 ts2"
    by (rule entries_cong[OF assms(1) disj assms(6)]) (use assms(7,8) in simp)
  moreover have "entries b (ts1 @ ts2) = entries b ts1 @ entries b ts2" for b
    by (simp add: entries_def)
  moreover have "same_outside (region (ts1 @ ts2)) b2 b0"
    using same_outside_trans[OF assms(3,1)] by (simp add: region_append Un_commute)
  ultimately show ?thesis using assms(2,4) by simp
qed

lemma rewritten_Nil: "buf st' = buf st \<Longrightarrow> totalUpdated st' = totalUpdated st \<Longrightarrow> rewritten d t [] st st'"
  by (simp add: rewritten_def entries_def)

lemma rewritten_start:
  "buf st0 = buf st \<Longrightarrow> totalUpdated st0 = totalUpdated st \<Longrightarrow>
   rewritten d t ts st0 st' \<Longrightarrow> rewritten d t ts st st'"
  by (simp add: rewritten_def)

lemma rewritten_compose:
  assumes "rewritten d t ts1 st st1" and "rewritten d t ts2 st1 st2"
    and "tables_in lo mid ts1" and "tables_in mid hi ts2" and "0 \<le> lo" and "lo \<le> mid"
  shows "rewritten d t (ts1 @ ts2) st st2"
proof -
  have disj: "region ts1 \<inter> region ts2 = {}"
  proof -
    have "{lo ..< mid} \<inter> {mid ..< hi} = {}" by auto
    with region_tables_in[OF assms(3)] region_tables_in[OF assms(4)] show ?thesis by blast
  qed
  have e2: "entries (buf st1) ts2 = entries (buf st) ts2"
    using assms(1) unfolding rewritten_def
    by (intro entries_cong[OF _ disj assms(4)]) (use assms(5,6) in auto)
  have "same_outside (region (ts1 @ ts2)) (buf st2) (buf st) \<and>
        entries (buf st2) (ts1 @ ts2) = map (shift d t) (entries (buf st) (ts1 @ ts2))"
    using assms(1,2) unfolding rewritten_def
    by (intro compose_rewrite[OF _ _ _ _ assms(3,4,5,6)]) auto
  moreover have "entries (buf st) (ts1 @ ts2) = entries (buf st) ts1 @ entries (buf st) ts2"
    by (simp add: entries_def)
  ultimately show ?thesis
    using assms(1,2) e2 unfolding rewritten_def by simp
qed

lemma continue_after:
  assumes "rewritten d t ts1 st st1" and "tables_in lo mid ts1" and "0 \<le> lo" and "lo \<le> mid"
    and "list_all (table_ok d t (buf st)) (tables (buf st) mid e)"
  shows "tables (buf st1) mid e = tables (buf st) mid e \<and>
         list_all (table_ok d t (buf st1)) (tables (buf st) mid e) \<and>
         blen (buf st1) = blen (buf st)"
proof -
  from assms(1) have so: "same_outside (region ts1) (buf st1) (buf st)"
    by (simp add: rewritten_def)
  have below: "\<forall>j\<in>region ts1. j < mid" using region_tables_in[OF assms(2)] by auto
  have tb: "tables (buf st1) mid e = tables (buf st) mid e"
    by (rule tables_cong[OF so below]) (use assms(3,4) in simp)
  have in2: "tables_in mid e (tables (buf st) mid e)" by (rule tables_tables_in[OF assms(5)])
  have "region ts1 \<inter> region (tables (buf st) mid e) = {}"
    using below region_tables_in[OF in2] by fastforce
  from table_ok_cong[OF so this in2, of d t] assms(3,4,5)
  have "list_all (table_ok d t (buf st1)) (tables (buf st) mid e)" by simp
  with tb same_outside_blen[OF so] show ?thesis by simp
qed

lemma stco_table_rewritten:
  assumes "0 \<le> pos" and "pos + sz \<le> blen (buf st)" and "table_ok d t (buf st) (Stco, pos, sz, n)"
  shows "\<exists>st'. stco_entries d t pos n 0 st = (st', None) \<and>
           rewritten d t [(Stco, pos, sz, n)] st st'"
proof -
  from assms(3) have fit: "16 + n * 4 \<le> sz"
    and ok: "\<forall>j. 0 \<le> j \<and> j < n \<longrightarrow>
           0 \<le> shift d t (entry_at Stco (buf st) pos j) \<and>
           shift d t (entry_at Stco (buf st) pos j) < 2 ^ 32"
    by (auto simp: table_ok_def list_all_iff limit_def)
  from fit assms(2) have "pos + 16 + n * 4 \<le> blen (buf st)" by simp
  from stco_entries_spec[OF assms(1) _ this ok]
  obtain st' where st': "stco_entries d t pos n 0 st = (st', None)"
    "same_outside {pos + 16 + 0 * 4 ..< pos + 16 + n * 4} (buf st') (buf st)"
    "\<forall>j. 0 \<le> j \<and> j < n \<longrightarrow>
        entry_at Stco (buf st') pos j = shift d t (entry_at Stco (buf st) pos j)"
    "totalUpdated st' = totalUpdated st +
       length (filter (\<lambda>j. t \<le> entry_at Stco (buf st) pos j) [0..n - 1])"
    by auto
  have r: "region [(Stco, pos, sz, n)] = {pos + 16 + 0 * 4 ..< pos + 16 + n * 4}"
    by (simp add: region_def)
  have e: "entries (buf st') [(Stco, pos, sz, n)]
         = map (shift d t) (entries (buf st) [(Stco, pos, sz, n)])"
    using st'(3) by (simp add: entries_def)
  have c: "length (filter (\<lambda>j. t \<le> entry_at Stco (buf st) pos j) [0..n - 1])
         = length (filter (\<lambda>off. t \<le> off) (entries (buf st) [(Stco, pos, sz, n)]))"
    by (simp add: entries_def filter_map o_def)
  have "rewritten d t [(Stco, pos, sz, n)] st st'"
    unfolding rewritten_def using st'(2,4) r e c by simp
  with st'(1) show ?thesis by blast
qed

lemma co64_table_rewritten:
  assumes "0 \<le> pos" and "pos + sz \<le> blen (buf st)" and "table_ok d t (buf st) (Co64, pos, sz, n)"
  shows "\<exists>st'. co64_entries d t pos n 0 st = (st', None) \<and>
           rewritten d t [(Co64, pos, sz, n)] st st'"
proof -
  from assms(3) have fit: "16 + n * 8 \<le> sz"
    and ok: "\<forall>j. 0 \<le> j \<and> j < n \<longrightarrow>
           entry_at Co64 (buf st) pos j < 2 ^ 53 \<and>
           0 \<le> shift d t (entry_at Co64 (buf st) pos j) \<and>
           shift d t (entry_at Co64 (buf st) pos j) < 2 ^ 53"
    by (auto simp: table_ok_def list_all_iff limit_def)
  from fit assms(2) have "pos + 16 + n * 8 \<le> blen (buf st)" by simp
  from co64_entries_spec[OF assms(1) _ this ok]
  obtain st' where st': "co64_entries d t pos n 0 st = (st', None)"
    "same_outside {pos + 16 + 0 * 8 ..< pos + 16 + n * 8} (buf st') (buf st)"
    "\<forall>j. 0 \<le> j \<and> j < n \<longrightarrow>
        entry_at Co64 (buf st') pos j = shift d t (entry_at Co64 (buf st) pos j)"
    "totalUpdated st' = totalUpdated st +
       length (filter (\<lambda>j. t \<le> entry_at Co64 (buf st) pos j) [0..n - 1])"
    by auto
  have r: "region [(Co64, pos, sz, n)] = {pos + 16 + 0 * 8 ..< pos + 16 + n * 8}"
    by (simp add: region_def)
  have e: "entries (buf st') [(Co64, pos, sz, n)]
         = map (shift d t) (entries (buf st) [(Co64, pos, sz, n)])"
    using st'(3) by (simp add: entries_def)
  have c: "length (filter (\<lambda>j. t \<le> entry_at Co64 (buf st) pos j) [0..n - 1])
         = length (filter (\<lambda>off. t \<le> off) (entries (buf st) [(Co64, pos, sz, n)]))"
    by (simp add: entries_def filter_map o_def)
  have "rewritten d t [(Co64, pos, sz, n)] st st'"
    unfolding rewritten_def using st'(2,4) r e c by simp
  with st'(1) show ?thesis by blast
qed

subsection \<open>The search\<close>

lemma searchAtoms_rewrites:
  assumes "0 \<le> pos" and "e \<le> blen (buf st)"
    and "list_all (table_ok d t (buf st)) (tables (buf st) pos e)"
  shows "\<exists>st'. searchAtoms d t pos e st = Some st' \<and>
           rewritten d t (tables (buf st) pos e) st st'"
  using assms
proof (induction "nat (e - pos)" arbitrary: pos e st rule: less_induct)
  case less
  let ?b = "buf st"
  note ok = less.prems(3)
  show ?case
  proof (cases "pos < e - 8 \<and> pos < blen ?b - 8")
    case False
    then have "searchAtoms d t pos e st = Some st" by (subst searchAtoms.simps) auto
    moreover have "tables ?b pos e = []" using False by (rule tables_stop)
    ultimately show ?thesis by (simp add: rewritten_Nil)
  next
    case True
    have step8: "\<exists>st'. searchAtoms d t (pos + 8) e s = Some st' \<and>
                   rewritten d t (tables ?b pos e) st st'"
      if "buf s = ?b" "totalUpdated s = totalUpdated st"
         "tables ?b pos e = tables ?b (pos + 8) e" for s
    proof -
      have "nat (e - (pos + 8)) < nat (e - pos)" using True by linarith
      moreover have "0 \<le> pos + 8" using less.prems(1) by simp
      moreover have "e \<le> blen (buf s)" using less.prems(2) that(1) by simp
      moreover have "list_all (table_ok d t (buf s)) (tables (buf s) (pos + 8) e)"
        using ok that(1,3) by simp
      ultimately obtain st' where "searchAtoms d t (pos + 8) e s = Some st'"
        "rewritten d t (tables (buf s) (pos + 8) e) s st'"
        using less.hyps[of e "pos + 8" s] by blast
      then show ?thesis using that rewritten_start[of s st d t] by auto
    qed
    show ?thesis
    proof (cases "readUInt32BE ?b pos")
      case (Inl err)
      have tb: "tables ?b pos e = tables ?b (pos + 8) e"
        using True Inl by (subst tables.simps) simp
      have "searchAtoms d t pos e st = searchAtoms d t (pos + 8) e st"
        using True Inl by (subst searchAtoms.simps) simp
      with step8[OF refl refl tb] show ?thesis by simp
    next
      case (Inr sz)
      show ?thesis
      proof (cases "sz < 8 \<or> sz > e - pos")
        case bad: True
        have tb: "tables ?b pos e = tables ?b (pos + 8) e"
          using True Inr bad by (subst tables.simps) auto
        have "searchAtoms d t pos e st = searchAtoms d t (pos + 8) e st"
          using True Inr bad by (subst searchAtoms.simps) auto
        with step8[OF refl refl tb] show ?thesis by simp
      next
        case False
        let ?ts2 = "tables ?b (pos + sz) e"
        have m2: "nat (e - (pos + sz)) < nat (e - pos)" using True False by linarith
        have p2: "0 \<le> pos + sz" using less.prems(1) False by simp
        have fits: "pos + sz \<le> blen ?b" using less.prems(2) False by simp
        text \<open>the rest of the range, after a first part that rewrote \<open>ts1\<close>\<close>
        have rest: "\<exists>st'. searchAtoms d t (pos + sz) e s1 = Some st' \<and>
                      rewritten d t (ts1 @ ?ts2) st st'"
          if "rewritten d t ts1 st s1" "tables_in lo (pos + sz) ts1" "0 \<le> lo" "lo \<le> pos + sz"
             "list_all (table_ok d t ?b) ?ts2" for s1 ts1 lo
        proof -
          from continue_after[OF that] have c:
            "tables (buf s1) (pos + sz) e = ?ts2"
            "list_all (table_ok d t (buf s1)) ?ts2" "blen (buf s1) = blen ?b"
            by auto
          have "e \<le> blen (buf s1)" using c(3) less.prems(2) by simp
          moreover have "list_all (table_ok d t (buf s1)) (tables (buf s1) (pos + sz) e)"
            using c(1,2) by simp
          ultimately obtain st' where st': "searchAtoms d t (pos + sz) e s1 = Some st'"
            "rewritten d t (tables (buf s1) (pos + sz) e) s1 st'"
            using less.hyps[OF m2 p2, of s1] by blast
          have "tables_in (pos + sz) e ?ts2" by (rule tables_tables_in[OF that(5)])
          from rewritten_compose[OF that(1) _ that(2) this that(3,4)] st'(2) c(1)
          have "rewritten d t (ts1 @ ?ts2) st st'" by simp
          with st'(1) show ?thesis by blast
        qed
        consider (stco) "type_at ?b pos = ascii ''stco''"
          | (co64) "type_at ?b pos \<noteq> ascii ''stco''" "type_at ?b pos = ascii ''co64''"
          | (cont) "type_at ?b pos \<noteq> ascii ''stco''" "type_at ?b pos \<noteq> ascii ''co64''"
                   "type_at ?b pos \<in> set containers"
          | (other) "type_at ?b pos \<noteq> ascii ''stco''" "type_at ?b pos \<noteq> ascii ''co64''"
                    "type_at ?b pos \<notin> set containers"
          by blast
        then show ?thesis
        proof cases
          case stco
          let ?st1 = "st\<lparr>stcoCount := stcoCount st + 1\<rparr>"
          show ?thesis
          proof (cases "readUInt32BE ?b (pos + 12)")
            case (Inl err)
            have tb: "tables ?b pos e = tables ?b (pos + 8) e"
              using True Inr False stco Inl by (subst tables.simps) simp
            have "searchAtoms d t pos e st = searchAtoms d t (pos + 8) e ?st1"
              using True Inr False stco Inl by (subst searchAtoms.simps) simp
            with step8[of ?st1, OF _ _ tb] show ?thesis by simp
          next
            case n: (Inr n)
            have tb: "tables ?b pos e = [(Stco, pos, sz, n)] @ ?ts2"
              using True Inr False stco n by (subst tables.simps) simp
            with ok have ok1: "table_ok d t (buf ?st1) (Stco, pos, sz, n)"
              and ok2: "list_all (table_ok d t ?b) ?ts2" by simp_all
            from stco_table_rewritten[OF less.prems(1) _ ok1] fits
            obtain st2 where st2: "stco_entries d t pos n 0 ?st1 = (st2, None)"
              "rewritten d t [(Stco, pos, sz, n)] ?st1 st2" by auto
            have r1: "rewritten d t [(Stco, pos, sz, n)] st st2"
              by (rule rewritten_start[OF _ _ st2(2)]) simp_all
            have in1: "tables_in pos (pos + sz) [(Stco, pos, sz, n)]"
              using ok1 by (simp add: tables_in_def table_ok_def)
            from rest[OF r1 in1 less.prems(1) _ ok2] False
            obtain st' where st': "searchAtoms d t (pos + sz) e st2 = Some st'"
              "rewritten d t ([(Stco, pos, sz, n)] @ ?ts2) st st'" by auto
            have "searchAtoms d t pos e st = searchAtoms d t (pos + sz) e st2"
              using True Inr False stco n st2(1) by (subst searchAtoms.simps) simp
            with st' tb show ?thesis by simp
          qed
        next
          case co64
          let ?st1 = "st\<lparr>co64Count := co64Count st + 1\<rparr>"
          show ?thesis
          proof (cases "readUInt32BE ?b (pos + 12)")
            case (Inl err)
            have tb: "tables ?b pos e = tables ?b (pos + 8) e"
              using True Inr False co64 Inl by (subst tables.simps) simp
            have "searchAtoms d t pos e st = searchAtoms d t (pos + 8) e ?st1"
              using True Inr False co64 Inl by (subst searchAtoms.simps) simp
            with step8[of ?st1, OF _ _ tb] show ?thesis by simp
          next
            case n: (Inr n)
            have tb: "tables ?b pos e = [(Co64, pos, sz, n)] @ ?ts2"
              using True Inr False co64 n by (subst tables.simps) simp
            with ok have ok1: "table_ok d t (buf ?st1) (Co64, pos, sz, n)"
              and ok2: "list_all (table_ok d t ?b) ?ts2" by simp_all
            from co64_table_rewritten[OF less.prems(1) _ ok1] fits
            obtain st2 where st2: "co64_entries d t pos n 0 ?st1 = (st2, None)"
              "rewritten d t [(Co64, pos, sz, n)] ?st1 st2" by auto
            have r1: "rewritten d t [(Co64, pos, sz, n)] st st2"
              by (rule rewritten_start[OF _ _ st2(2)]) simp_all
            have in1: "tables_in pos (pos + sz) [(Co64, pos, sz, n)]"
              using ok1 by (simp add: tables_in_def table_ok_def)
            from rest[OF r1 in1 less.prems(1) _ ok2] False
            obtain st' where st': "searchAtoms d t (pos + sz) e st2 = Some st'"
              "rewritten d t ([(Co64, pos, sz, n)] @ ?ts2) st st'" by auto
            have "searchAtoms d t pos e st = searchAtoms d t (pos + sz) e st2"
              using True Inr False co64 n st2(1) by (subst searchAtoms.simps) simp
            with st' tb show ?thesis by simp
          qed
        next
          case cont
          let ?ts1 = "tables ?b (pos + 8) (pos + sz)"
          have tb: "tables ?b pos e = ?ts1 @ ?ts2"
            using True Inr False cont by (subst tables.simps) simp
          with ok have ok1: "list_all (table_ok d t ?b) ?ts1"
            and ok2: "list_all (table_ok d t ?b) ?ts2" by simp_all
          have "nat (pos + sz - (pos + 8)) < nat (e - pos)" using True False by linarith
          moreover have "0 \<le> pos + 8" using less.prems(1) by simp
          ultimately obtain s1 where s1: "searchAtoms d t (pos + 8) (pos + sz) st = Some s1"
            "rewritten d t ?ts1 st s1"
            using less.hyps[of "pos + sz" "pos + 8" st] fits ok1 by blast
          have in1: "tables_in (pos + 8) (pos + sz) ?ts1" by (rule tables_tables_in[OF ok1])
          from rest[OF s1(2) in1 _ _ ok2] less.prems(1) False
          obtain st' where st': "searchAtoms d t (pos + sz) e s1 = Some st'"
            "rewritten d t (?ts1 @ ?ts2) st st'" by auto
          have "searchAtoms d t pos e st = searchAtoms d t (pos + sz) e s1"
            using True Inr False cont s1(1) by (subst searchAtoms.simps) simp
          with st' tb show ?thesis by simp
        next
          case other
          have tb: "tables ?b pos e = ?ts2"
            using True Inr False other by (subst tables.simps) simp
          have "searchAtoms d t pos e st = searchAtoms d t (pos + sz) e st"
            using True Inr False other by (subst searchAtoms.simps) simp
          moreover obtain st' where "searchAtoms d t (pos + sz) e st = Some st'"
            "rewritten d t ?ts2 st st'"
            using less.hyps[OF m2 p2, of st] less.prems(2) ok tb by auto
          ultimately show ?thesis using tb by simp
        qed
      qed
    qed
  qed
qed

lemma changed_count:
  "length (filter (\<lambda>(x, y). x \<noteq> y) (zip xs (map f xs))) = length (filter (\<lambda>x. x \<noteq> f x) xs)"
  by (induction xs) auto


text \<open>
  Claim C1, as amended. Take a moov buffer in which every chunk-offset table that the
  search reaches has its entries inside its box, every \<^verbatim>\<open>stco\<close> entry \<open>o \<ge> T\<close> has
  \<open>0 \<le> o + \<Delta> < 2^32\<close>, and every \<^verbatim>\<open>co64\<close> entry \<open>o\<close> is below \<open>2^53\<close> with
  \<open>0 \<le> o + \<Delta> < 2^53\<close> when \<open>o \<ge> T\<close>. Then \<^verbatim>\<open>updateChunkOffsets\<close> replaces each entry
  \<open>o\<close> of every such table with \<open>o + \<Delta>\<close> exactly when \<open>o \<ge> T\<close> and leaves every
  entry \<open>o < T\<close> and every byte outside the entries unchanged; it counts as updated
  the entries \<open>\<ge> T\<close> of the input, and for \<open>\<Delta> \<noteq> 0\<close> these are the entries that
  differ in the output.
\<close>

theorem chunk_offsets_shifted:
  assumes "list_all (table_ok sizeDelta shiftThreshold moovBuffer)
             (tables moovBuffer 0 (blen moovBuffer))"
  shows "\<exists>st'. updateChunkOffsets moovBuffer sizeDelta shiftThreshold = Some st' \<and>
           length (buf st') = length moovBuffer \<and>
           entries (buf st') (tables moovBuffer 0 (blen moovBuffer))
             = map (shift sizeDelta shiftThreshold)
                 (entries moovBuffer (tables moovBuffer 0 (blen moovBuffer))) \<and>
           (\<forall>j < length moovBuffer.
              int j \<notin> region (tables moovBuffer 0 (blen moovBuffer)) \<longrightarrow>
              buf st' ! j = moovBuffer ! j) \<and>
           totalUpdated st'
             = length (filter (\<lambda>off. shiftThreshold \<le> off)
                 (entries moovBuffer (tables moovBuffer 0 (blen moovBuffer)))) \<and>
           (sizeDelta \<noteq> 0 \<longrightarrow>
              length (filter (\<lambda>(old, new). old \<noteq> new)
                 (zip (entries moovBuffer (tables moovBuffer 0 (blen moovBuffer)))
                      (entries (buf st') (tables moovBuffer 0 (blen moovBuffer)))))
              = length (filter (\<lambda>off. shiftThreshold \<le> off)
                 (entries moovBuffer (tables moovBuffer 0 (blen moovBuffer)))))"
proof -
  let ?st = "\<lparr>buf = moovBuffer, stcoCount = 0, co64Count = 0, totalUpdated = 0\<rparr>"
  let ?ts = "tables moovBuffer 0 (blen moovBuffer)"
  from searchAtoms_rewrites[of 0 "blen moovBuffer" ?st sizeDelta shiftThreshold] assms
  obtain st' where run: "searchAtoms sizeDelta shiftThreshold 0 (blen moovBuffer) ?st = Some st'"
    and rw: "rewritten sizeDelta shiftThreshold ?ts ?st st'"
    by auto
  from rw have so: "same_outside (region ?ts) (buf st') moovBuffer"
    and en: "entries (buf st') ?ts = map (shift sizeDelta shiftThreshold) (entries moovBuffer ?ts)"
    and tu: "totalUpdated st' = length (filter (\<lambda>off. shiftThreshold \<le> off) (entries moovBuffer ?ts))"
    by (simp_all add: rewritten_def)
  have ch: "length (filter (\<lambda>(old, new). old \<noteq> new)
                 (zip (entries moovBuffer ?ts) (entries (buf st') ?ts)))
            = length (filter (\<lambda>off. shiftThreshold \<le> off) (entries moovBuffer ?ts))"
    if "sizeDelta \<noteq> 0"
  proof -
    have "(\<lambda>x. x \<noteq> shift sizeDelta shiftThreshold x) = (\<lambda>off. shiftThreshold \<le> off)"
      using that by (auto simp: shift_def fun_eq_iff)
    then show ?thesis unfolding en changed_count by simp
  qed
  from so have "length (buf st') = length moovBuffer"
    and "\<forall>j < length moovBuffer. int j \<notin> region ?ts \<longrightarrow> buf st' ! j = moovBuffer ! j"
    by (simp_all add: same_outside_def)
  with run en tu ch show ?thesis unfolding updateChunkOffsets_def by blast
qed


theorem chunk_offsets_shifted_witness:
  "list_all (table_ok 10 50
      ([0, 0, 0, 36] @ ascii ''moov'' @ [0, 0, 0, 28] @ ascii ''stco'' @
      [0, 0, 0, 0, 0, 0, 0, 3, 0, 0, 0, 50, 0, 0, 1, 0, 0, 0, 0, 49]))
     (tables
      ([0, 0, 0, 36] @ ascii ''moov'' @ [0, 0, 0, 28] @ ascii ''stco'' @
      [0, 0, 0, 0, 0, 0, 0, 3, 0, 0, 0, 50, 0, 0, 1, 0, 0, 0, 0, 49])
      0 36) \<and>
   (\<exists>st'. updateChunkOffsets
      ([0, 0, 0, 36] @ ascii ''moov'' @ [0, 0, 0, 28] @ ascii ''stco'' @
      [0, 0, 0, 0, 0, 0, 0, 3, 0, 0, 0, 50, 0, 0, 1, 0, 0, 0, 0, 49])
      10 50 = Some st' \<and>
      entries (buf st') [(Stco, 8, 28, 3)] = [60, 266, 49] \<and>
      totalUpdated st' = 2)"
proof -
  let ?B = "[0, 0, 0, 36] @ ascii ''moov'' @ [0, 0, 0, 28] @ ascii ''stco'' @
      [0, 0, 0, 0, 0, 0, 0, 3, 0, 0, 0, 50, 0, 0, 1, 0, 0, 0, 0, 49]"
  have bl: "blen ?B = 36" by (simp add: blen_def ascii_def)
  have ok: "list_all (table_ok 10 50 ?B) (tables ?B 0 (blen ?B))" by code_simp
  have ts: "tables ?B 0 (blen ?B) = [(Stco, 8, 28, 3)]" by code_simp
  have en: "entries ?B [(Stco, 8, 28, 3)] = [50, 256, 49]" by code_simp
  from chunk_offsets_shifted[OF ok] obtain st' where
    "updateChunkOffsets ?B 10 50 = Some st'"
    "entries (buf st') (tables ?B 0 (blen ?B))
       = map (shift 10 50) (entries ?B (tables ?B 0 (blen ?B)))"
    "totalUpdated st'
       = length (filter (\<lambda>off. 50 \<le> off) (entries ?B (tables ?B 0 (blen ?B))))"
    by blast
  then have "updateChunkOffsets ?B 10 50 = Some st' \<and>
      entries (buf st') [(Stco, 8, 28, 3)] = [60, 266, 49] \<and> totalUpdated st' = 2"
    unfolding ts en by (simp add: shift_def)
  with ok bl show ?thesis by auto
qed

text \<open>
  The claim as written fails: a \<^verbatim>\<open>stco\<close> table with the entries \<open>2^32 - 1\<close> and \<open>100\<close>,
  \<open>\<Delta> = 1\<close> and \<open>T = 0\<close>. Both entries are \<open>\<ge> T\<close>. The write of \<open>2^32\<close> throws, the
  exception ends the loop over the table, and the second entry stays \<open>100\<close>; no entry
  is counted as updated.
\<close>

theorem chunk_offsets_shifted_counterexample:
  "tables
     ([0, 0, 0, 32] @ ascii ''moov'' @ [0, 0, 0, 24] @ ascii ''stco'' @
      [0, 0, 0, 0, 0, 0, 0, 2, 255, 255, 255, 255, 0, 0, 0, 100])
     0 32 = [(Stco, 8, 24, 2)] \<and>
   entries
     ([0, 0, 0, 32] @ ascii ''moov'' @ [0, 0, 0, 24] @ ascii ''stco'' @
      [0, 0, 0, 0, 0, 0, 0, 2, 255, 255, 255, 255, 0, 0, 0, 100])
     [(Stco, 8, 24, 2)] = [4294967295, 100] \<and>
   map_option (\<lambda>s. (entries (buf s) [(Stco, 8, 24, 2)], totalUpdated s))
     (updateChunkOffsets
        ([0, 0, 0, 32] @ ascii ''moov'' @ [0, 0, 0, 24] @ ascii ''stco'' @
      [0, 0, 0, 0, 0, 0, 0, 2, 255, 255, 255, 255, 0, 0, 0, 100])
        1 0)
   = Some ([4294967295, 100], 0)"
  by code_simp

subsection \<open>Rewriting in place\<close>

lemma type_at_overwrite:
  assumes "0 \<le> p" and "p + 8 \<le> int k" and "k + length bs \<le> length b"
  shows "type_at (overwrite b k bs) p = type_at b p"
proof -
  have so: "same_outside {int k ..< int k + int (length bs)} (overwrite b k bs) b"
    using assms(3) by (rule overwrite_same_outside)
  have len: "p + 8 \<le> blen (overwrite b k bs)"
    using assms same_outside_blen[OF so] by (simp add: blen_def)
  have "{p + 4 ..< p + 8} \<inter> {int k ..< int k + int (length bs)} = {}"
    using assms(2) by auto
  from type_at_cong[OF so this assms(1) len] show ?thesis .
qed

lemma stco_write_step:
  assumes "readUInt32BE b (pos + 16 + i * 4) = Inr off" and "t \<le> off"
    and "writeUInt32BE b (js_add off d) (pos + 16 + i * 4) = Inr b'"
    and "0 \<le> pos" and "0 \<le> i" and "type_at b pos = ascii ''stco''"
  shows "entry_write d t b b' \<and> type_at b' pos = ascii ''stco''"
proof -
  from assms(3) have r: "0 \<le> pos + 16 + i * 4" "pos + 16 + i * 4 + 4 \<le> blen b"
    and v: "0 \<le> js_add off d" "js_add off d < 2 ^ 32"
    and b': "b' = overwrite b (nat (pos + 16 + i * 4)) (be_bytes 4 (js_add off d))"
    by (auto simp: writeUInt32BE_def split: if_splits)
  from assms(1) have off: "entry_at Stco b pos i = off"
    by (auto simp: readUInt32BE_def entry_at_def split: if_splits)
  have "entry_write d t b b'"
    unfolding entry_write_def
    using assms(2,4,5,6) r v b' off
    by (intro exI[of _ Stco] exI[of _ pos] exI[of _ i]) (simp add: tag_def as_number_def)
  moreover have "type_at b' pos = type_at b pos"
    unfolding b' using assms(4,5) r by (intro type_at_overwrite) (auto simp: blen_def)
  ultimately show ?thesis using assms(6) by simp
qed

lemma co64_write_step:
  assumes "readBigUInt64BE b (pos + 16 + i * 8) = Inr raw" and "t \<le> to_double raw"
    and "writeBigUInt64BE b (js_add (to_double raw) d) (pos + 16 + i * 8) = Inr b'"
    and "0 \<le> pos" and "0 \<le> i" and "type_at b pos = ascii ''co64''"
  shows "entry_write d t b b' \<and> type_at b' pos = ascii ''co64''"
proof -
  from assms(3) have r: "0 \<le> pos + 16 + i * 8" "pos + 16 + i * 8 + 8 \<le> blen b"
    and v: "0 \<le> js_add (to_double raw) d" "js_add (to_double raw) d < 2 ^ 64"
    and b': "b' = overwrite b (nat (pos + 16 + i * 8)) (be_bytes 8 (js_add (to_double raw) d))"
    by (auto simp: writeBigUInt64BE_def split: if_splits)
  from assms(1) have raw: "entry_at Co64 b pos i = raw"
    by (auto simp: readBigUInt64BE_def entry_at_def split: if_splits)
  have "entry_write d t b b'"
    unfolding entry_write_def
    using assms(2,4,5,6) r v b' raw
    by (intro exI[of _ Co64] exI[of _ pos] exI[of _ i]) (simp add: tag_def as_number_def)
  moreover have "type_at b' pos = type_at b pos"
    unfolding b' using assms(4,5) r by (intro type_at_overwrite) (auto simp: blen_def)
  ultimately show ?thesis using assms(6) by simp
qed

lemma stco_entries_in_place:
  "0 \<le> pos \<Longrightarrow> 0 \<le> i \<Longrightarrow> type_at (buf st) pos = ascii ''stco'' \<Longrightarrow>
   rtranclp (entry_write d t) (buf st) (buf (fst (stco_entries d t pos n i st)))"
proof (induction d t pos n i st rule: stco_entries.induct)
  case (1 d t pos n i st)
  show ?case
  proof (cases "i < n")
    case False
    then show ?thesis by (subst stco_entries.simps) simp
  next
    case True
    show ?thesis
    proof (cases "readUInt32BE (buf st) (pos + 16 + i * 4)")
      case (Inl e)
      with True show ?thesis by (subst stco_entries.simps) (simp add: Let_def)
    next
      case (Inr off)
      show ?thesis
      proof (cases "t \<le> off")
        case False
        with True Inr 1(2)[OF True refl Inr] 1(3,4,5) show ?thesis
          by (subst stco_entries.simps) (simp add: Let_def)
      next
        case ge: True
        show ?thesis
        proof (cases "writeUInt32BE (buf st) (js_add off d) (pos + 16 + i * 4)")
          case (Inl e)
          with True Inr ge show ?thesis by (subst stco_entries.simps) (simp add: Let_def)
        next
          case w: (Inr b')
          from stco_write_step[OF Inr ge w 1(3,4,5)]
          have ew: "entry_write d t (buf st) b'" and ty: "type_at b' pos = ascii ''stco''" by auto
          let ?st = "st\<lparr>buf := b', totalUpdated := totalUpdated st + 1\<rparr>"
          from 1(1)[OF True refl Inr ge refl w] 1(3,4) ty
          have "rtranclp (entry_write d t) (buf ?st) (buf (fst (stco_entries d t pos n (i + 1) ?st)))"
            by simp
          with ew have "rtranclp (entry_write d t) (buf st) (buf (fst (stco_entries d t pos n (i + 1) ?st)))"
            by simp
          with True Inr ge w show ?thesis by (subst stco_entries.simps) (simp add: Let_def)
        qed
      qed
    qed
  qed
qed

lemma co64_entries_in_place:
  "0 \<le> pos \<Longrightarrow> 0 \<le> i \<Longrightarrow> type_at (buf st) pos = ascii ''co64'' \<Longrightarrow>
   rtranclp (entry_write d t) (buf st) (buf (fst (co64_entries d t pos n i st)))"
proof (induction d t pos n i st rule: co64_entries.induct)
  case (1 d t pos n i st)
  show ?case
  proof (cases "i < n")
    case False
    then show ?thesis by (subst co64_entries.simps) simp
  next
    case True
    show ?thesis
    proof (cases "readBigUInt64BE (buf st) (pos + 16 + i * 8)")
      case (Inl e)
      with True show ?thesis by (subst co64_entries.simps) (simp add: Let_def)
    next
      case (Inr raw)
      show ?thesis
      proof (cases "t \<le> to_double raw")
        case False
        with True Inr 1(2)[OF True refl Inr refl] 1(3,4,5) show ?thesis
          by (subst co64_entries.simps) (simp add: Let_def)
      next
        case ge: True
        show ?thesis
        proof (cases "writeBigUInt64BE (buf st) (js_add (to_double raw) d) (pos + 16 + i * 8)")
          case (Inl e)
          with True Inr ge show ?thesis by (subst co64_entries.simps) (simp add: Let_def)
        next
          case w: (Inr b')
          from co64_write_step[OF Inr ge w 1(3,4,5)]
          have ew: "entry_write d t (buf st) b'" and ty: "type_at b' pos = ascii ''co64''" by auto
          let ?st = "st\<lparr>buf := b', totalUpdated := totalUpdated st + 1\<rparr>"
          from 1(1)[OF True refl Inr refl ge refl w] 1(3,4) ty
          have "rtranclp (entry_write d t) (buf ?st) (buf (fst (co64_entries d t pos n (i + 1) ?st)))"
            by simp
          with ew have "rtranclp (entry_write d t) (buf st) (buf (fst (co64_entries d t pos n (i + 1) ?st)))"
            by simp
          with True Inr ge w show ?thesis by (subst co64_entries.simps) (simp add: Let_def)
        qed
      qed
    qed
  qed
qed

lemma searchAtoms_in_place:
  "0 \<le> pos \<Longrightarrow>
   \<exists>st'. searchAtoms d t pos e st = Some st' \<and> rtranclp (entry_write d t) (buf st) (buf st')"
proof (induction "nat (e - pos)" arbitrary: pos e st rule: less_induct)
  case less
  note IH = less(1) and pos = less(2)
  show ?case
  proof (cases "pos < e - 8 \<and> pos < blen (buf st) - 8")
    case False
    then show ?thesis by (subst searchAtoms.simps) auto
  next
    case True
    have step8: "\<exists>st'. searchAtoms d t (pos + 8) e s = Some st' \<and>
                   rtranclp (entry_write d t) (buf s) (buf st')" for s
      using True pos by (intro IH) linarith+
    show ?thesis
    proof (cases "readUInt32BE (buf st) pos")
      case (Inl err)
      with True step8[of st] show ?thesis by (subst searchAtoms.simps) auto
    next
      case (Inr sz)
      show ?thesis
      proof (cases "sz < 8 \<or> sz > e - pos")
        case True
        with \<open>pos < e - 8 \<and> pos < blen (buf st) - 8\<close> Inr step8[of st] show ?thesis
          by (subst searchAtoms.simps) auto
      next
        case False
        have stepsz: "\<exists>st'. searchAtoms d t (pos + sz) e s = Some st' \<and>
                        rtranclp (entry_write d t) (buf s) (buf st')" for s
          using True False pos by (intro IH) linarith+
        have inner: "\<exists>st'. searchAtoms d t (pos + 8) (pos + sz) s = Some st' \<and>
                       rtranclp (entry_write d t) (buf s) (buf st')" for s
          using True False pos by (intro IH) linarith+
        consider (stco) "type_at (buf st) pos = ascii ''stco''"
          | (co64) "type_at (buf st) pos \<noteq> ascii ''stco''"
                   "type_at (buf st) pos = ascii ''co64''"
          | (cont) "type_at (buf st) pos \<noteq> ascii ''stco''"
                   "type_at (buf st) pos \<noteq> ascii ''co64''"
                   "type_at (buf st) pos \<in> set containers"
          | (other) "type_at (buf st) pos \<noteq> ascii ''stco''"
                    "type_at (buf st) pos \<noteq> ascii ''co64''"
                    "type_at (buf st) pos \<notin> set containers"
          by blast
        then show ?thesis
        proof cases
          case stco
          let ?st1 = "st\<lparr>stcoCount := stcoCount st + 1\<rparr>"
          show ?thesis
          proof (cases "readUInt32BE (buf st) (pos + 12)")
            case (Inl err)
            with True False Inr stco step8[of ?st1] show ?thesis
              by (subst searchAtoms.simps) auto
          next
            case n: (Inr n)
            obtain st2 r where r: "stco_entries d t pos n 0 ?st1 = (st2, r)" by force
            have w: "rtranclp (entry_write d t) (buf st) (buf st2)"
              using stco_entries_in_place[of pos 0 ?st1 d t n] pos stco r by simp
            from step8[of st2] stepsz[of st2] w
            have "\<exists>st'. searchAtoms d t (pos + 8) e st2 = Some st' \<and>
                        rtranclp (entry_write d t) (buf st) (buf st')"
              and "\<exists>st'. searchAtoms d t (pos + sz) e st2 = Some st' \<and>
                        rtranclp (entry_write d t) (buf st) (buf st')"
              by (meson rtranclp_trans)+
            then show ?thesis
              using True False Inr stco n r
              by (subst searchAtoms.simps) (auto split: option.splits)
          qed
        next
          case co64
          let ?st1 = "st\<lparr>co64Count := co64Count st + 1\<rparr>"
          show ?thesis
          proof (cases "readUInt32BE (buf st) (pos + 12)")
            case (Inl err)
            with True False Inr co64 step8[of ?st1] show ?thesis
              by (subst searchAtoms.simps) auto
          next
            case n: (Inr n)
            obtain st2 r where r: "co64_entries d t pos n 0 ?st1 = (st2, r)" by force
            have w: "rtranclp (entry_write d t) (buf st) (buf st2)"
              using co64_entries_in_place[of pos 0 ?st1 d t n] pos co64(2) r by simp
            from step8[of st2] stepsz[of st2] w
            have "\<exists>st'. searchAtoms d t (pos + 8) e st2 = Some st' \<and>
                        rtranclp (entry_write d t) (buf st) (buf st')"
              and "\<exists>st'. searchAtoms d t (pos + sz) e st2 = Some st' \<and>
                        rtranclp (entry_write d t) (buf st) (buf st')"
              by (meson rtranclp_trans)+
            then show ?thesis
              using True False Inr co64 n r
              by (subst searchAtoms.simps) (auto split: option.splits)
          qed
        next
          case cont
          from inner[of st] obtain s1 where
            s1: "searchAtoms d t (pos + 8) (pos + sz) st = Some s1"
                "rtranclp (entry_write d t) (buf st) (buf s1)"
            by blast
          from stepsz[of s1] s1(2)
          have "\<exists>st'. searchAtoms d t (pos + sz) e s1 = Some st' \<and>
                      rtranclp (entry_write d t) (buf st) (buf st')"
            by (meson rtranclp_trans)
          with True False Inr cont s1(1) show ?thesis
            by (subst searchAtoms.simps) auto
        next
          case other
          with True False Inr stepsz[of st] show ?thesis
            by (subst searchAtoms.simps) auto
        qed
      qed
    qed
  qed
qed

text \<open>
  Claim C2, as amended. \<^verbatim>\<open>updateChunkOffsets\<close> has no upgrade of a \<^verbatim>\<open>stco\<close> table to
  \<^verbatim>\<open>co64\<close>. For every moov buffer, delta and threshold the call returns, without an
  exception; the buffer keeps its length; and every change made to it replaces in
  place one entry of a box whose type is \<^verbatim>\<open>stco\<close> (4 bytes) or \<^verbatim>\<open>co64\<close> (8 bytes), an
  entry at or above the threshold, by the entry plus the delta, a value that fits the
  width of the entry. So the rewrite resizes no box and stores no offset above
  \<open>2^32 - 1\<close> in a \<^verbatim>\<open>stco\<close> table, and the size of the moov box it returns is the one the
  delta was computed from.
\<close>

theorem stco_never_upgraded:
  "\<exists>st. updateChunkOffsets moovBuffer sizeDelta shiftThreshold = Some st \<and>
         length (buf st) = length moovBuffer \<and>
         rtranclp (entry_write sizeDelta shiftThreshold) moovBuffer (buf st)"
proof -
  let ?st0 = "\<lparr>buf = moovBuffer, stcoCount = 0, co64Count = 0, totalUpdated = 0\<rparr>"
  from searchAtoms_in_place[of 0 sizeDelta shiftThreshold "blen moovBuffer" ?st0]
  obtain st where st: "searchAtoms sizeDelta shiftThreshold 0 (blen moovBuffer) ?st0 = Some st"
    and w: "rtranclp (entry_write sizeDelta shiftThreshold) moovBuffer (buf st)"
    by auto
  from searchAtoms_returns[of sizeDelta shiftThreshold 0 "blen moovBuffer" ?st0] st
  have "length (buf st) = length moovBuffer" by simp
  with st w show ?thesis by (simp add: updateChunkOffsets_def)
qed


theorem stco_never_upgraded_witness:
  "\<exists>st. updateChunkOffsets
      ([0, 0, 0, 28] @ ascii ''moov'' @ [0, 0, 0, 20] @ ascii ''stco'' @
      [0, 0, 0, 0, 0, 0, 0, 1, 255, 255, 255, 255])
      1 0 = Some st \<and>
      length (buf st) = length
      ([0, 0, 0, 28] @ ascii ''moov'' @ [0, 0, 0, 20] @ ascii ''stco'' @
      [0, 0, 0, 0, 0, 0, 0, 1, 255, 255, 255, 255]) \<and>
      rtranclp (entry_write 1 0)
      ([0, 0, 0, 28] @ ascii ''moov'' @ [0, 0, 0, 20] @ ascii ''stco'' @
      [0, 0, 0, 0, 0, 0, 0, 1, 255, 255, 255, 255])
      (buf st)"
  by (rule stco_never_upgraded)

text \<open>
  The claim as written fails. A file whose \<^verbatim>\<open>stco\<close> table holds the entry \<open>2^32 - 1\<close> is
  saved with the kaid JSON \<^verbatim>\<open>{}\<close>: the moov box grows by the new \<^verbatim>\<open>udta\<close> box, the
  entry is past the old end of moov, and entry plus delta does not fit 32 bits. The
  file built has the table as it was, a \<^verbatim>\<open>stco\<close> box of 20 bytes with the entry
  \<open>2^32 - 1\<close>, and no \<^verbatim>\<open>co64\<close> box.
\<close>

theorem stco_overflow_counterexample:
  "newFileBuffer
     (box ''moov'' (box ''stco'' ([0, 0, 0, 0] @ be_bytes 4 1 @ [255, 255, 255, 255])) @
      box ''mdat'' [7])
     (js ''{}'')
   = Some (Inr
     (box ''moov''
        (box ''stco'' ([0, 0, 0, 0] @ be_bytes 4 1 @ [255, 255, 255, 255]) @
         box ''udta''
           ([0, 0, 0, 0] @ box ''hdlr'' hdlrData @
            box ''ilst'' (freeform ''com.stems'' ''kaid'' 1 (ascii ''{}'')))) @
      box ''mdat'' [7]))"
  by code_simp

section \<open>The kaid atom\<close>

lemma mod64_le: "(k::int) mod 64 \<le> 63"
proof -
  have "k mod 64 < 64" by simp
  then show ?thesis by linarith
qed

lemma cont_mod64: "cont (128 + k mod 64)"
  using mod64_le[of k] by (simp add: cont_def)

lemma valid1: "0 \<le> b0 \<Longrightarrow> b0 < 128 \<Longrightarrow> valid_utf8 (b0 # r) = valid_utf8 r"
  by simp

lemma valid2:
  "194 \<le> b0 \<Longrightarrow> b0 \<le> 223 \<Longrightarrow> cont b1 \<Longrightarrow> valid_utf8 (b0 # b1 # r) = valid_utf8 r"
  by simp

lemma valid3:
  "224 \<le> b0 \<Longrightarrow> b0 \<le> 239 \<Longrightarrow>
   (if b0 = 224 then 160 \<le> b1 \<and> b1 \<le> 191
    else if b0 = 237 then 128 \<le> b1 \<and> b1 \<le> 159 else cont b1) \<Longrightarrow>
   cont b2 \<Longrightarrow> valid_utf8 (b0 # b1 # b2 # r) = valid_utf8 r"
  by simp

lemma valid4:
  "240 \<le> b0 \<Longrightarrow> b0 \<le> 244 \<Longrightarrow>
   (if b0 = 240 then 144 \<le> b1 \<and> b1 \<le> 191
    else if b0 = 244 then 128 \<le> b1 \<and> b1 \<le> 143 else cont b1) \<Longrightarrow>
   cont b2 \<Longrightarrow> cont b3 \<Longrightarrow> valid_utf8 (b0 # b1 # b2 # b3 # r) = valid_utf8 r"
  by simp

lemma div64_bounds: "64 * (c div 64) \<le> c \<and> c < 64 * (c div 64) + 64" for c :: int
proof -
  have "c = 64 * (c div 64) + c mod 64" by simp
  moreover have "0 \<le> c mod 64" "c mod 64 < 64" by simp_all
  ultimately show ?thesis by linarith
qed

lemma utf8_point_valid:
  assumes "scalar c"
  shows "valid_utf8 (utf8_point c @ r) = valid_utf8 r"
proof -
  have c0: "0 \<le> c" using assms by (simp add: scalar_def)
  consider "c < 128" | "128 \<le> c" "c < 2048" | "2048 \<le> c" "c < 65536" | "65536 \<le> c"
    by linarith
  then show ?thesis
  proof cases
    case 1
    with c0 show ?thesis by (simp add: utf8_point_def)
  next
    case 2
    define q where "q = c div 64"
    have "2 \<le> q" "q < 32" using 2 div64_bounds[of c] unfolding q_def by linarith+
    then have "194 \<le> 192 + q" "192 + q \<le> 223" by simp_all
    from valid2[OF this cont_mod64[of c], of r] 2 show ?thesis
      by (simp add: utf8_point_def q_def)
  next
    case 3
    define x where "x = c div 64"
    define q where "q = x div 64"
    define m where "m = x mod 64"
    have cx: "64 * x \<le> c" "c < 64 * x + 64" using div64_bounds[of c] by (simp_all add: x_def)
    have xm: "x = 64 * q + m" "0 \<le> m" "m < 64" by (simp_all add: q_def m_def)
    have x1: "32 \<le> x" using 3 cx by linarith
    have x2: "x < 1024" using 3 cx by linarith
    have x3: "\<not> (864 \<le> x \<and> x < 896)" using assms cx unfolding scalar_def by linarith
    have q0: "0 \<le> q" using x1 xm by linarith
    have q15: "q \<le> 15" using x2 xm by linarith
    have b0: "224 \<le> 224 + q" "224 + q \<le> 239" using q0 q15 by simp_all
    have b1: "if 224 + q = 224 then 160 \<le> 128 + m \<and> 128 + m \<le> 191
              else if 224 + q = 237 then 128 \<le> 128 + m \<and> 128 + m \<le> 159 else cont (128 + m)"
    proof -
      have "160 \<le> 128 + m \<and> 128 + m \<le> 191" if "q = 0" using that xm x1 by linarith
      moreover have "128 \<le> 128 + m \<and> 128 + m \<le> 159" if "q = 13" using that xm x3 by linarith
      moreover have "cont (128 + m)" using xm(2,3) by (simp add: cont_def)
      ultimately show ?thesis by simp
    qed
    have "c div 4096 = q" unfolding q_def x_def by (simp add: zdiv_zmult2_eq)
    then have "utf8_point c = [224 + q, 128 + m, 128 + c mod 64]"
      using 3 by (simp add: utf8_point_def m_def x_def)
    with valid3[OF b0 b1 cont_mod64[of c], of r] show ?thesis by simp
  next
    case 4
    define x where "x = c div 4096"
    define q where "q = x div 64"
    define m where "m = x mod 64"
    from assms have lt: "c < 1114112" by (simp add: scalar_def)
    have "c = 4096 * x + c mod 4096" unfolding x_def by simp
    moreover have "0 \<le> c mod 4096" "c mod 4096 < 4096" by simp_all
    ultimately have cx: "4096 * x \<le> c" "c < 4096 * x + 4096" by linarith+
    have xm: "x = 64 * q + m" "0 \<le> m" "m < 64" by (simp_all add: q_def m_def)
    have x1: "16 \<le> x" using 4 cx by linarith
    have x2: "x < 272" using lt cx by linarith
    have q0: "0 \<le> q" using x1 xm by linarith
    have q4: "q \<le> 4" using x2 xm by linarith
    have b0: "240 \<le> 240 + q" "240 + q \<le> 244" using q0 q4 by simp_all
    have b1: "if 240 + q = 240 then 144 \<le> 128 + m \<and> 128 + m \<le> 191
              else if 240 + q = 244 then 128 \<le> 128 + m \<and> 128 + m \<le> 143 else cont (128 + m)"
    proof -
      have "144 \<le> 128 + m \<and> 128 + m \<le> 191" if "q = 0" using that xm x1 by linarith
      moreover have "128 \<le> 128 + m \<and> 128 + m \<le> 143" if "q = 4" using that xm x2 by linarith
      moreover have "cont (128 + m)" using xm(2,3) by (simp add: cont_def)
      ultimately show ?thesis by simp
    qed
    have "c div 262144 = q" unfolding q_def x_def by (simp add: zdiv_zmult2_eq)
    moreover have "c div 4096 mod 64 = m" unfolding m_def x_def ..
    ultimately have "utf8_point c = [240 + q, 128 + m, 128 + c div 64 mod 64, 128 + c mod 64]"
      using 4 by (simp add: utf8_point_def)
    with valid4[OF b0 b1 cont_mod64[of "c div 64"] cont_mod64[of c], of r] show ?thesis by simp
  qed
qed

lemma utf8_points_valid: "\<forall>c\<in>set cs. scalar c \<Longrightarrow> valid_utf8 (concat (map utf8_point cs))"
  by (induction cs) (simp_all add: utf8_point_valid)

lemma pair_scalar:
  assumes "55296 \<le> x" "x < 56320" "56320 \<le> y" "y < 57344"
  shows "scalar (65536 + (x - 55296) * 1024 + (y - 56320))"
proof -
  have "(x - 55296) * 1024 = 1024 * x - 56623104" by simp
  then show ?thesis unfolding scalar_def using assms by linarith
qed

lemma code_points_scalar:
  "\<forall>x\<in>set us. 0 \<le> x \<and> x < 65536 \<Longrightarrow> \<forall>c\<in>set (code_points us). scalar c"
proof (induction us rule: code_points.induct)
  case 1
  show ?case by simp
next
  case (2 x)
  then show ?case by (simp add: scalar_def)
next
  case (3 x y us)
  have s65533: "scalar 65533" by (simp add: scalar_def)
  have rest1: "\<forall>c\<in>set (code_points (y # us)). scalar c"
    if "\<not> (55296 \<le> x \<and> x < 56320 \<and> 56320 \<le> y \<and> y < 57344)"
    using that 3 by (cases "55296 \<le> x \<and> x < 56320"; cases "56320 \<le> x \<and> x < 57344") auto
  show ?case
  proof (cases "55296 \<le> x \<and> x < 56320")
    case hi: True
    show ?thesis
    proof (cases "56320 \<le> y \<and> y < 57344")
      case True
      with hi have "\<forall>c\<in>set (code_points us). scalar c" using 3 by simp
      moreover have "scalar (65536 + (x - 55296) * 1024 + (y - 56320))"
        using hi True by (intro pair_scalar) auto
      ultimately show ?thesis using hi True by auto
    next
      case False
      with hi rest1 s65533 show ?thesis by auto
    qed
  next
    case nothi: False
    show ?thesis
    proof (cases "56320 \<le> x \<and> x < 57344")
      case True
      with nothi rest1 s65533 show ?thesis by auto
    next
      case False
      have "0 \<le> x" "x < 65536" using 3 by simp_all
      with nothi False have "scalar x" unfolding scalar_def by linarith
      with nothi False rest1 show ?thesis by auto
    qed
  qed
qed

lemma utf8_point_bytes: "scalar c \<Longrightarrow> \<forall>x\<in>set (utf8_point c). 0 \<le> x \<and> x < 256"
proof -
  assume "scalar c"
  then have lt: "c < 1114112" and c0: "0 \<le> c" by (simp_all add: scalar_def)
  have m: "0 \<le> 128 + k mod 64 \<and> 128 + k mod 64 < 256" for k :: int
    using mod64_le[of k] by simp
  have a: "0 \<le> 192 + c div 64 \<and> 192 + c div 64 < 256" if "c < 2048"
    using that c0 div64_bounds[of c] by linarith
  have b: "0 \<le> 224 + c div 4096 \<and> 224 + c div 4096 < 256" if "c < 65536"
  proof -
    have "c = 4096 * (c div 4096) + c mod 4096" by simp
    moreover have "0 \<le> c mod 4096" "c mod 4096 < 4096" by simp_all
    ultimately show ?thesis using that c0 by linarith
  qed
  have d: "0 \<le> 240 + c div 262144 \<and> 240 + c div 262144 < 256"
  proof -
    have "c = 262144 * (c div 262144) + c mod 262144" by simp
    moreover have "0 \<le> c mod 262144" "c mod 262144 < 262144" by simp_all
    ultimately show ?thesis using lt c0 by linarith
  qed
  show ?thesis unfolding utf8_point_def using m a b d c0 by auto
qed

lemma uint_word_of_int_bytes:
  "\<forall>x\<in>set xs. 0 \<le> x \<and> x < 256 \<Longrightarrow> map uint (map word_of_int xs :: byte list) = xs"
  by (induction xs) (simp_all add: uint_word_of_int_eq take_bit_eq_mod)

lemma utf8_valid: "valid_utf8 (map uint (utf8 s))"
proof -
  let ?cs = "code_points (map uint s)"
  have u: "\<forall>x\<in>set (map uint s). 0 \<le> x \<and> x < 65536"
  proof
    fix x assume "x \<in> set (map uint s)"
    then obtain w :: "16 word" where "x = uint w" by auto
    then show "0 \<le> x \<and> x < 65536" using unsigned_less[of w, where 'a = int] by simp
  qed
  then have sc: "\<forall>c\<in>set ?cs. scalar c" by (rule code_points_scalar)
  then have "\<forall>x\<in>set (concat (map utf8_point ?cs)). 0 \<le> x \<and> x < 256"
    using utf8_point_bytes by auto
  then have "map uint (utf8 s) = concat (map utf8_point ?cs)"
    unfolding utf8_def by (rule uint_word_of_int_bytes)
  with utf8_points_valid[OF sc] show ?thesis by simp
qed

lemma alloc_8: "alloc 8 = [0, 0, 0, 0, 0, 0, 0, 0]"
  unfolding alloc_def by (simp add: eval_nat_numeral)

lemma alloc8_write:
  "0 \<le> v \<Longrightarrow> v < 2 ^ 32 \<Longrightarrow> writeUInt32BE (alloc 8) v 0 = Inr (be_bytes 4 v @ [0, 0, 0, 0])"
  by (simp add: writeUInt32BE_def alloc_8 blen_def overwrite_def)

lemma createAtom_box:
  assumes "8 + blen d < 2 ^ 32" and "length t = 4"
  shows "createAtom (ascii t) d = Inr (box t d)"
proof -
  have "0 \<le> 8 + blen d" by (simp add: blen_def)
  from alloc8_write[OF this assms(1)] assms(2) show ?thesis
    by (simp add: createAtom_def box_def overwrite_def ascii_def)
qed

lemma mean_data:
  "writeUInt32BE (alloc (4 + length (ascii ''com.stems''))) 0 0 = Inr (alloc 13)"
  by code_simp

lemma mean_payload: "overwrite (alloc 13) 4 (ascii ''com.stems'') = [0, 0, 0, 0] @ ascii ''com.stems''"
  by code_simp

lemma name_data:
  "writeUInt32BE (alloc (4 + length (ascii ''kaid''))) 0 0 = Inr (alloc 8)"
  by code_simp

lemma name_payload: "overwrite (alloc 8) 4 (ascii ''kaid'') = [0, 0, 0, 0] @ ascii ''kaid''"
  by code_simp

lemma data_header:
  "writeUInt32BE (alloc 8) 1 0 = Inr [0, 0, 0, 1, 0, 0, 0, 0]"
  "writeUInt32BE [0, 0, 0, 1, 0, 0, 0, 0] 0 4 = Inr [0, 0, 0, 1, 0, 0, 0, 0]"
  by code_simp+

lemma blen_box: "length t = 4 \<Longrightarrow> blen (box t d) = 8 + blen d"
  by (simp add: box_def blen_def ascii_def)


lemma createAtom_too_big: "2 ^ 32 \<le> 8 + blen d \<Longrightarrow> createAtom t d = Inl RangeError"
  by (simp add: createAtom_def writeUInt32BE_def Let_def)

lemma createKaidAtom_kaid_item:
  assumes "61 + blen (utf8 kaidJson) < 2 ^ 32"
  shows "createKaidAtom kaidJson = Inr (freeform ''com.stems'' ''kaid'' 1 (utf8 kaidJson))"
proof -
  let ?v = "utf8 kaidJson"
  have nn: "0 \<le> blen ?v" by (simp add: blen_def)
  have mean: "createAtom (ascii ''mean'') ([0, 0, 0, 0] @ ascii ''com.stems'')
              = Inr (box ''mean'' ([0, 0, 0, 0] @ ascii ''com.stems''))"
    by (rule createAtom_box) (simp_all add: blen_def ascii_def)
  have name: "createAtom (ascii ''name'') ([0, 0, 0, 0] @ ascii ''kaid'')
              = Inr (box ''name'' ([0, 0, 0, 0] @ ascii ''kaid''))"
    by (rule createAtom_box) (simp_all add: blen_def ascii_def)
  have hdr: "be_bytes 4 1 @ be_bytes 4 0 @ ?v = [0, 0, 0, 1, 0, 0, 0, 0] @ ?v"
  proof -
    have "be_bytes 4 1 = [0, 0, 0, 1]" "be_bytes 4 0 = [0, 0, 0, 0]" by code_simp+
    then show ?thesis by simp
  qed
  have data: "createAtom (ascii ''data'') ([0, 0, 0, 1, 0, 0, 0, 0] @ ?v)
              = Inr (box ''data'' ([0, 0, 0, 1, 0, 0, 0, 0] @ ?v))"
    using assms nn by (intro createAtom_box) (simp_all add: blen_def)
  let ?payload = "box ''mean'' ([0, 0, 0, 0] @ ascii ''com.stems'') @
                   box ''name'' ([0, 0, 0, 0] @ ascii ''kaid'') @
                   box ''data'' ([0, 0, 0, 1, 0, 0, 0, 0] @ ?v)"
  have "blen ?payload = 53 + blen ?v"
    by (simp add: box_def blen_def ascii_def)
  then have free: "createAtom (ascii ''----'') ?payload = Inr (box ''----'' ?payload)"
    using assms by (intro createAtom_box) simp_all
  show ?thesis
    unfolding createKaidAtom_def freeform_def Let_def
    by (simp add: mean_data name_data mean_payload name_payload data_header
          mean name data free hdr del: append.simps append_Cons)
qed

lemma createKaidAtom_too_big:
  assumes "2 ^ 32 \<le> 61 + blen (utf8 kaidJson)"
  shows "createKaidAtom kaidJson = Inl RangeError"
proof -
  let ?v = "utf8 kaidJson"
  have mean: "createAtom (ascii ''mean'') ([0, 0, 0, 0] @ ascii ''com.stems'')
              = Inr (box ''mean'' ([0, 0, 0, 0] @ ascii ''com.stems''))"
    by (rule createAtom_box) (simp_all add: blen_def ascii_def)
  have name: "createAtom (ascii ''name'') ([0, 0, 0, 0] @ ascii ''kaid'')
              = Inr (box ''name'' ([0, 0, 0, 0] @ ascii ''kaid''))"
    by (rule createAtom_box) (simp_all add: blen_def ascii_def)
  show ?thesis
  proof (cases "16 + blen ?v < 2 ^ 32")
    case False
    then have "createAtom (ascii ''data'') ([0, 0, 0, 1, 0, 0, 0, 0] @ ?v) = Inl RangeError"
      by (intro createAtom_too_big) (simp add: blen_def)
    then show ?thesis
      unfolding createKaidAtom_def Let_def
      by (simp add: mean_data name_data mean_payload name_payload data_header
            mean name del: append.simps append_Cons)
  next
    case True
    then have data: "createAtom (ascii ''data'') ([0, 0, 0, 1, 0, 0, 0, 0] @ ?v)
              = Inr (box ''data'' ([0, 0, 0, 1, 0, 0, 0, 0] @ ?v))"
      by (intro createAtom_box) (simp_all add: blen_def)
    let ?payload = "box ''mean'' ([0, 0, 0, 0] @ ascii ''com.stems'') @
                   box ''name'' ([0, 0, 0, 0] @ ascii ''kaid'') @
                   box ''data'' ([0, 0, 0, 1, 0, 0, 0, 0] @ ?v)"
    have "blen ?payload = 53 + blen ?v"
      by (simp add: box_def blen_def ascii_def)
    then have "createAtom (ascii ''----'') ?payload = Inl RangeError"
      using assms by (intro createAtom_too_big) simp
    then show ?thesis
      unfolding createKaidAtom_def Let_def
      by (simp add: mean_data name_data mean_payload name_payload data_header
            mean name data del: append.simps append_Cons)
  qed
qed

lemma freeform_name_differs:
  "freeform ''com.stems'' ''kaid'' 1 v \<noteq> freeform ''com.stems'' ''vpch'' 1 v"
  by (simp add: freeform_def box_def blen_def ascii_def)

text \<open>
  Claim C9, as amended. The writer has one encoder of a freeform item,
  \<^verbatim>\<open>createKaidAtom\<close>, and it encodes the kaid item only: the namespace \<^verbatim>\<open>com.stems\<close>
  and the name \<^verbatim>\<open>kaid\<close> are constants of it. For every JavaScript string \<open>kaidJson\<close>
  whose UTF-8 encoding is shorter than \<open>2^32 - 61\<close> bytes it produces a \<^verbatim>\<open>----\<close> box of
  exactly three boxes in order: \<^verbatim>\<open>mean\<close> with 4 zero flag bytes and the ASCII
  namespace, \<^verbatim>\<open>name\<close> with 4 zero flag bytes and the ASCII name, \<^verbatim>\<open>data\<close> with the 4-byte
  type code 1, the 4-byte locale 0 and the UTF-8 encoding of \<open>kaidJson\<close>, which is
  well-formed UTF-8.
\<close>

theorem createKaidAtom_structure:
  assumes "61 + blen (utf8 kaidJson) < 2 ^ 32"
  shows "createKaidAtom kaidJson =
           Inr (freeform ''com.stems'' ''kaid'' 1 (utf8 kaidJson)) \<and>
         valid_utf8 (map uint (utf8 kaidJson))"
  using createKaidAtom_kaid_item[OF assms] utf8_valid[of kaidJson] by simp

theorem createKaidAtom_structure_witness:
  "61 + blen (utf8 (js ''{}'')) < 2 ^ 32 \<and>
   createKaidAtom (js ''{}'') = Inr (freeform ''com.stems'' ''kaid'' 1 (utf8 (js ''{}''))) \<and>
   valid_utf8 (map uint (utf8 (js ''{}'')))"
proof -
  have h: "61 + blen (utf8 (js ''{}'')) < 2 ^ 32" by code_simp
  from createKaidAtom_structure[OF h] h show ?thesis by simp
qed

text \<open>
  The claim as written fails: it is stated for every namespace and name, and there is
  no value for which the encoder produces the item of \<^verbatim>\<open>com.stems\<close> and \<^verbatim>\<open>vpch\<close>.
\<close>

theorem createKaidAtom_identity_counterexample:
  "\<forall>kaidJson. createKaidAtom kaidJson \<noteq> Inr (freeform ''com.stems'' ''vpch'' 1 (utf8 kaidJson))"
proof
  fix kaidJson
  show "createKaidAtom kaidJson \<noteq> Inr (freeform ''com.stems'' ''vpch'' 1 (utf8 kaidJson))"
  proof (cases "61 + blen (utf8 kaidJson) < 2 ^ 32")
    case True
    from createKaidAtom_kaid_item[OF True] freeform_name_differs show ?thesis by simp
  next
    case False
    then have "createKaidAtom kaidJson = Inl RangeError"
      by (intro createKaidAtom_too_big) simp
    then show ?thesis by simp
  qed
qed


section \<open>The save\<close>











text \<open>
  Claim C4 does not hold of the code. \<^verbatim>\<open>updateMetaWithKaid\<close> looks for the existing kaid
  item with \<^verbatim>\<open>find((a) => a.type === '----')\<close>: it takes the first freeform item of
  \<^verbatim>\<open>ilst\<close>, whatever its namespace and name. Here the only item of the file is
  \<^verbatim>\<open>----:com.stems:vpch\<close> with the value 01 02 03 04: the save replaces it by the kaid
  item, and the pitch data are gone from the output.
\<close>

theorem first_freeform_item_replaced:
  "newFileBuffer
     (box ''ftyp'' (ascii ''M4A '') @ box ''moov'' (box ''trak'' (box ''mdia'' (box ''minf'' (box ''stbl'' (box ''stco'' ([0, 0, 0, 0] @ be_bytes 4 1 @ be_bytes 4 173))))) @ box ''udta'' (box ''meta'' ([0, 0, 0, 0] @ box ''ilst'' (freeform ''com.stems'' ''vpch'' 0 ([1, 2, 3, 4]))))) @ box ''mdat'' [9, 9, 9, 9, 9, 9, 9, 9, 9])
     (js ''{}'')
   = Some (Inr
     (box ''ftyp'' (ascii ''M4A '') @ box ''moov'' (box ''trak'' (box ''mdia'' (box ''minf'' (box ''stbl'' (box ''stco'' ([0, 0, 0, 0] @ be_bytes 4 1 @ be_bytes 4 171))))) @ box ''udta'' (box ''meta'' ([0, 0, 0, 0] @ box ''ilst'' (freeform ''com.stems'' ''kaid'' 1 (ascii ''{}''))))) @ box ''mdat'' [9, 9, 9, 9, 9, 9, 9, 9, 9]))"
  by code_simp








section \<open>The kaid data\<close>

lemma map_array_all2: "map_array f xs = Inr ys \<Longrightarrow> list_all2 (\<lambda>x y. f x = Inr y) xs ys"
  by (induction xs arbitrary: ys) (auto split: sum.splits)

lemma line_entry_index: "line_entry l i = line_entry l 0"
  by (simp add: line_entry_def)

lemma js_map_Arr:
  assumes "js_map v f = Inr r"
  shows "\<exists>xs ys. v = Arr xs \<and> r = Arr ys \<and>
           list_all2 (\<lambda>(x, i) y. f x i = Inr y) (zip xs [0..<length xs]) ys"
proof -
  from assms obtain xs ys where v: "v = Arr xs" and r: "r = Arr ys"
    and m: "map_array (\<lambda>(x, i). f x i) (zip xs [0..<length xs]) = Inr ys"
    by (auto simp: js_map_def split: jsval.splits sum.splits)
  from map_array_all2[OF m]
  have "list_all2 (\<lambda>(x, i) y. f x i = Inr y) (zip xs [0..<length xs]) ys"
    by (simp add: case_prod_unfold)
  with v r show ?thesis by blast
qed

lemma js_map_lines:
  assumes "js_map v line_entry = Inr lines"
  shows "\<exists>xs ks. v = Arr xs \<and> lines = Arr ks \<and> list_all2 (\<lambda>l k. line_entry l 0 = Inr k) xs ks"
proof -
  from js_map_Arr[OF assms] obtain xs ks where v: "v = Arr xs" and l: "lines = Arr ks"
    and a: "list_all2 (\<lambda>(x, i) y. line_entry x i = Inr y) (zip xs [0..<length xs]) ks"
    by blast
  then have len: "length ks = length xs" by (auto dest: list_all2_lengthD)
  have "list_all2 (\<lambda>l k. line_entry l 0 = Inr k) xs ks"
  proof (rule list_all2_all_nthI)
    show "length xs = length ks" using len by simp
    fix n assume n: "n < length xs"
    with a len have "(case zip xs [0..<length xs] ! n of (x, i) \<Rightarrow> \<lambda>y. line_entry x i = Inr y) (ks ! n)"
      by (auto dest: list_all2_nthD)
    with n show "line_entry (xs ! n) 0 = Inr (ks ! n)"
      using line_entry_index[of "xs ! n" n] by simp
  qed
  with v l show ?thesis by blast
qed

lemma property_opt: "property v k = Inr x \<Longrightarrow> opt_property v k = x"
  by (simp add: opt_property_def)

lemma line_entry_Inr:
  assumes "line_entry l i = Inr k"
  shows "k = Obj
           ([(''start'', js_or (opt_property l ''start'')
                           (js_or (opt_property l ''startTimeSec'') (Num 0))),
             (''end'', js_or (opt_property l ''end'')
                         (js_or (opt_property l ''endTimeSec'') (Num 0))),
             (''text'', js_or (opt_property l ''text'') (Str []))]
            @ (if truthy (opt_property l ''disabled'') then [(''disabled'', Bool True)] else []))"
  using assms
  by (auto simp: line_entry_def spread_if_def dest!: property_opt split: sum.splits)

lemma source_entry_Inr:
  assumes "source_entry x i = Inr y"
  shows "y = Obj
           [(''id'', js_or (opt_property x ''name'') (opt_property x ''filename'')),
            (''role'', js_or (opt_property x ''name'') (opt_property x ''filename'')),
            (''track'', if opt_property x ''trackIndex'' \<noteq> Undefined
                        then opt_property x ''trackIndex'' else Num (real i))]"
  using assms
  by (auto simp: source_entry_def dest!: property_opt split: sum.splits)

lemma singers_spread:
  assumes "(if truthy singers
            then (case js_gt0 len of Inl e \<Rightarrow> Inl e | Inr c \<Rightarrow> Inr (Bool c))
            else Inr singers) = Inr hasSingers"
  shows "truthy hasSingers \<longleftrightarrow> truthy singers \<and> js_gt0 len = Inr True"
  using assms by (auto split: if_splits sum.splits)

lemma prepareKaidData_shape:
  assumes "prepareKaidData songData = Inr kaid"
  shows "\<exists>sources lines.
           js_map (js_or (opt_property (opt_property songData ''audio'') ''sources'') (Arr []))
             source_entry = Inr sources \<and>
           js_map (js_or (opt_property songData ''lyrics'') (Arr [])) line_entry = Inr lines \<and>
           kaid = Obj
             ([(''audio'', Obj
                  [(''sources'', sources),
                   (''profile'',
                      js_or (opt_property (opt_property songData ''audio'') ''profile'')
                        (js_or (opt_property (opt_property songData ''meta'') ''profile'')
                           (Str (js ''STEMS-4'')))),
                   (''encoder_delay_samples'',
                      js_or (opt_property (opt_property (opt_property songData ''audio'') ''timing'')
                               ''encoderDelaySamples'') (Num 0)),
                   (''presets'',
                      js_or (opt_property (opt_property songData ''audio'') ''presets'') (Arr []))]),
               (''timing'', Obj
                  [(''offset_sec'',
                      js_or (opt_property (opt_property (opt_property songData ''audio'') ''timing'')
                               ''offsetSec'') (Num 0))]),
               (''lines'', lines)]
              @ (if truthy (opt_property (opt_property songData ''features'') ''vocalPitch'')
                 then [(''vocal_pitch'', opt_property (opt_property songData ''features'') ''vocalPitch'')]
                 else [])
              @ (if truthy (opt_property (opt_property songData ''features'') ''onsets'')
                 then [(''onsets'', opt_property (opt_property songData ''features'') ''onsets'')]
                 else [])
              @ (if truthy (opt_property (opt_property songData ''features'') ''tempo'')
                 then [(''meter'', opt_property (opt_property songData ''features'') ''tempo'')]
                 else [])
              @ (if truthy (opt_property songData ''singers'') \<and>
                    js_gt0 (opt_property (opt_property songData ''singers'') ''length'') = Inr True
                 then [(''singers'', opt_property songData ''singers'')]
                 else []))"
proof -
  from assms obtain audio sources lines hasSingers where
    a: "property songData ''audio'' = Inr audio"
    and s: "js_map (js_or (opt_property audio ''sources'') (Arr [])) source_entry = Inr sources"
    and l: "js_map (js_or (opt_property songData ''lyrics'') (Arr [])) line_entry = Inr lines"
    and h: "(if truthy (opt_property songData ''singers'')
             then (case js_gt0 (opt_property (opt_property songData ''singers'') ''length'') of
                     Inl e \<Rightarrow> Inl e | Inr c \<Rightarrow> Inr (Bool c))
             else Inr (opt_property songData ''singers'')) = Inr hasSingers"
    by (auto simp: prepareKaidData_def Let_def split: sum.splits)
  have au: "opt_property songData ''audio'' = audio" using a by (rule property_opt)
  note sp = singers_spread[OF h]
  from assms a s l h show ?thesis
    unfolding prepareKaidData_def Let_def au
    by (simp add: sp spread_if_def)
qed

text \<open>
  Claim C7, as amended. For every song that \<^verbatim>\<open>prepareKaidData\<close> accepts, the kaid object
  has the keys \<^verbatim>\<open>audio\<close>, \<^verbatim>\<open>timing\<close> and \<^verbatim>\<open>lines\<close>, in this order, followed by

  \<^item> \<^verbatim>\<open>vocal_pitch\<close> with the value of \<^verbatim>\<open>features.vocalPitch\<close>, exactly when that value is
    truthy,
  \<^item> \<^verbatim>\<open>onsets\<close> with the value of \<^verbatim>\<open>features.onsets\<close>, exactly when that value is truthy,
  \<^item> \<^verbatim>\<open>meter\<close> with the value of \<^verbatim>\<open>features.tempo\<close>, exactly when that value is truthy,
  \<^item> \<^verbatim>\<open>singers\<close> with the value of \<^verbatim>\<open>singers\<close>, exactly when that value is truthy and
    \<^verbatim>\<open>singers.length > 0\<close>,

  and no other key: there is no \<^verbatim>\<open>stems_karaoke_version\<close>. \<^verbatim>\<open>audio\<close> has the keys
  \<^verbatim>\<open>sources\<close>, \<^verbatim>\<open>profile\<close>, \<^verbatim>\<open>encoder_delay_samples\<close> and \<^verbatim>\<open>presets\<close>, each source the keys
  \<^verbatim>\<open>id\<close>, \<^verbatim>\<open>role\<close> and \<^verbatim>\<open>track\<close>; \<^verbatim>\<open>timing\<close> has the key \<^verbatim>\<open>offset_sec\<close>. Every lyric line
  of the song gives one element of \<^verbatim>\<open>lines\<close>, in order, with exactly the keys \<^verbatim>\<open>start\<close>
  (\<^verbatim>\<open>line.start || line.startTimeSec || 0\<close>), \<^verbatim>\<open>end\<close>
  (\<^verbatim>\<open>line.end || line.endTimeSec || 0\<close>) and \<^verbatim>\<open>text\<close> (\<^verbatim>\<open>line.text || ''\<close>), followed by
  \<^verbatim>\<open>disabled: true\<close> exactly when \<^verbatim>\<open>line.disabled\<close> is truthy; it has no \<^verbatim>\<open>singer_id\<close> and
  no \<^verbatim>\<open>word_timing\<close>.
\<close>

theorem kaid_key_set:
  assumes "prepareKaidData songData = Inr kaid"
  shows "\<exists>ss srcs ls ks.
     js_or (opt_property (opt_property songData ''audio'') ''sources'') (Arr []) = Arr ss \<and>
     js_or (opt_property songData ''lyrics'') (Arr []) = Arr ls \<and>
     kaid = Obj
       ([(''audio'', Obj
            [(''sources'', Arr srcs),
             (''profile'',
                js_or (opt_property (opt_property songData ''audio'') ''profile'')
                  (js_or (opt_property (opt_property songData ''meta'') ''profile'')
                     (Str (js ''STEMS-4'')))),
             (''encoder_delay_samples'',
                js_or (opt_property (opt_property (opt_property songData ''audio'') ''timing'')
                         ''encoderDelaySamples'') (Num 0)),
             (''presets'',
                js_or (opt_property (opt_property songData ''audio'') ''presets'') (Arr []))]),
         (''timing'', Obj
            [(''offset_sec'',
                js_or (opt_property (opt_property (opt_property songData ''audio'') ''timing'')
                         ''offsetSec'') (Num 0))]),
         (''lines'', Arr ks)]
        @ (if truthy (opt_property (opt_property songData ''features'') ''vocalPitch'')
           then [(''vocal_pitch'', opt_property (opt_property songData ''features'') ''vocalPitch'')]
           else [])
        @ (if truthy (opt_property (opt_property songData ''features'') ''onsets'')
           then [(''onsets'', opt_property (opt_property songData ''features'') ''onsets'')]
           else [])
        @ (if truthy (opt_property (opt_property songData ''features'') ''tempo'')
           then [(''meter'', opt_property (opt_property songData ''features'') ''tempo'')]
           else [])
        @ (if truthy (opt_property songData ''singers'') \<and>
              js_gt0 (opt_property (opt_property songData ''singers'') ''length'') = Inr True
           then [(''singers'', opt_property songData ''singers'')]
           else [])) \<and>
     list_all2
       (\<lambda>(x, i) y. y = Obj
          [(''id'', js_or (opt_property x ''name'') (opt_property x ''filename'')),
           (''role'', js_or (opt_property x ''name'') (opt_property x ''filename'')),
           (''track'', if opt_property x ''trackIndex'' \<noteq> Undefined
                       then opt_property x ''trackIndex'' else Num (real i))])
       (zip ss [0..<length ss]) srcs \<and>
     list_all2
       (\<lambda>l k. k = Obj
          ([(''start'', js_or (opt_property l ''start'')
                          (js_or (opt_property l ''startTimeSec'') (Num 0))),
            (''end'', js_or (opt_property l ''end'')
                        (js_or (opt_property l ''endTimeSec'') (Num 0))),
            (''text'', js_or (opt_property l ''text'') (Str []))]
           @ (if truthy (opt_property l ''disabled'') then [(''disabled'', Bool True)] else [])))
       ls ks \<and>
     opt_property kaid ''stems_karaoke_version'' = Undefined \<and>
     list_all (\<lambda>k. opt_property k ''singer_id'' = Undefined \<and>
                    opt_property k ''word_timing'' = Undefined) ks"
proof -
  from prepareKaidData_shape[OF assms] obtain sources lines where
    s: "js_map (js_or (opt_property (opt_property songData ''audio'') ''sources'') (Arr []))
          source_entry = Inr sources"
    and l: "js_map (js_or (opt_property songData ''lyrics'') (Arr [])) line_entry = Inr lines"
    and k: "kaid = Obj
             ([(''audio'', Obj
                  [(''sources'', sources),
                   (''profile'',
                      js_or (opt_property (opt_property songData ''audio'') ''profile'')
                        (js_or (opt_property (opt_property songData ''meta'') ''profile'')
                           (Str (js ''STEMS-4'')))),
                   (''encoder_delay_samples'',
                      js_or (opt_property (opt_property (opt_property songData ''audio'') ''timing'')
                               ''encoderDelaySamples'') (Num 0)),
                   (''presets'',
                      js_or (opt_property (opt_property songData ''audio'') ''presets'') (Arr []))]),
               (''timing'', Obj
                  [(''offset_sec'',
                      js_or (opt_property (opt_property (opt_property songData ''audio'') ''timing'')
                               ''offsetSec'') (Num 0))]),
               (''lines'', lines)]
              @ (if truthy (opt_property (opt_property songData ''features'') ''vocalPitch'')
                 then [(''vocal_pitch'', opt_property (opt_property songData ''features'') ''vocalPitch'')]
                 else [])
              @ (if truthy (opt_property (opt_property songData ''features'') ''onsets'')
                 then [(''onsets'', opt_property (opt_property songData ''features'') ''onsets'')]
                 else [])
              @ (if truthy (opt_property (opt_property songData ''features'') ''tempo'')
                 then [(''meter'', opt_property (opt_property songData ''features'') ''tempo'')]
                 else [])
              @ (if truthy (opt_property songData ''singers'') \<and>
                    js_gt0 (opt_property (opt_property songData ''singers'') ''length'') = Inr True
                 then [(''singers'', opt_property songData ''singers'')]
                 else []))"
    by blast
  from js_map_Arr[OF s] obtain ss srcs where
    ss: "js_or (opt_property (opt_property songData ''audio'') ''sources'') (Arr []) = Arr ss"
    and srcs: "sources = Arr srcs"
    and se: "list_all2 (\<lambda>(x, i) y. source_entry x i = Inr y) (zip ss [0..<length ss]) srcs"
    by blast
  from js_map_lines[OF l] obtain ls ks where
    ls: "js_or (opt_property songData ''lyrics'') (Arr []) = Arr ls"
    and ks: "lines = Arr ks"
    and le: "list_all2 (\<lambda>l k. line_entry l 0 = Inr k) ls ks"
    by blast
  have src: "list_all2
       (\<lambda>(x, i) y. y = Obj
          [(''id'', js_or (opt_property x ''name'') (opt_property x ''filename'')),
           (''role'', js_or (opt_property x ''name'') (opt_property x ''filename'')),
           (''track'', if opt_property x ''trackIndex'' \<noteq> Undefined
                       then opt_property x ''trackIndex'' else Num (real i))])
       (zip ss [0..<length ss]) srcs"
    using se by (rule list_all2_mono) (auto dest: source_entry_Inr)
  have lin: "list_all2
       (\<lambda>l k. k = Obj
          ([(''start'', js_or (opt_property l ''start'')
                          (js_or (opt_property l ''startTimeSec'') (Num 0))),
            (''end'', js_or (opt_property l ''end'')
                        (js_or (opt_property l ''endTimeSec'') (Num 0))),
            (''text'', js_or (opt_property l ''text'') (Str []))]
           @ (if truthy (opt_property l ''disabled'') then [(''disabled'', Bool True)] else [])))
       ls ks"
    using le by (rule list_all2_mono) (auto dest: line_entry_Inr)
  have nov: "opt_property kaid ''stems_karaoke_version'' = Undefined"
    unfolding k by (simp add: opt_property_def)
  have nos: "list_all (\<lambda>k. opt_property k ''singer_id'' = Undefined \<and>
                    opt_property k ''word_timing'' = Undefined) ks"
    unfolding list_all_iff
  proof
    fix k assume "k \<in> set ks"
    then obtain n where "n < length ks" "k = ks ! n" by (auto simp: in_set_conv_nth)
    with le have "line_entry (ls ! n) 0 = Inr k" by (auto dest: list_all2_nthD2)
    from line_entry_Inr[OF this]
    show "opt_property k ''singer_id'' = Undefined \<and> opt_property k ''word_timing'' = Undefined"
      by (simp add: opt_property_def)
  qed
  from ss ls k[unfolded srcs ks] src lin nov nos show ?thesis by blast
qed

theorem kaid_key_set_witness:
  "let songData =
     Obj [(''audio'', Obj [(''sources'', Arr
               [Obj [(''name'', Str (js ''vocals''))],
                Obj [(''filename'', Str (js ''drums.wav'')), (''trackIndex'', Num 3)]])]),
            (''features'', Obj [(''vocalPitch'', Arr [Num 60]), (''tempo'', Num 0)]),
            (''singers'', Obj [(''length'', Str (js ''5''))]),
            (''lyrics'', Arr
               [Obj [(''start'', Num 1), (''end'', Num 2), (''text'', Str (js ''la'')),
                     (''disabled'', Bool True)],
                Obj [(''startTimeSec'', Num 3), (''endTimeSec'', Num 4)]])];
       kaid =
     Obj [(''audio'', Obj
               [(''sources'', Arr
                  [Obj [(''id'', Str (js ''vocals'')), (''role'', Str (js ''vocals'')),
                        (''track'', Num 0)],
                   Obj [(''id'', Str (js ''drums.wav'')), (''role'', Str (js ''drums.wav'')),
                        (''track'', Num 3)]]),
                (''profile'', Str (js ''STEMS-4'')),
                (''encoder_delay_samples'', Num 0), (''presets'', Arr [])]),
            (''timing'', Obj [(''offset_sec'', Num 0)]),
            (''lines'', Arr
               [Obj [(''start'', Num 1), (''end'', Num 2), (''text'', Str (js ''la'')),
                     (''disabled'', Bool True)],
                Obj [(''start'', Num 3), (''end'', Num 4), (''text'', Str [])]]),
            (''vocal_pitch'', Arr [Num 60]),
            (''singers'', Obj [(''length'', Str (js ''5''))])]
   in prepareKaidData songData = Inr kaid \<and>
   (\<exists>ss srcs ls ks.
     js_or (opt_property (opt_property songData ''audio'') ''sources'') (Arr []) = Arr ss \<and>
     js_or (opt_property songData ''lyrics'') (Arr []) = Arr ls \<and>
     kaid = Obj
       ([(''audio'', Obj
            [(''sources'', Arr srcs),
             (''profile'',
                js_or (opt_property (opt_property songData ''audio'') ''profile'')
                  (js_or (opt_property (opt_property songData ''meta'') ''profile'')
                     (Str (js ''STEMS-4'')))),
             (''encoder_delay_samples'',
                js_or (opt_property (opt_property (opt_property songData ''audio'') ''timing'')
                         ''encoderDelaySamples'') (Num 0)),
             (''presets'',
                js_or (opt_property (opt_property songData ''audio'') ''presets'') (Arr []))]),
         (''timing'', Obj
            [(''offset_sec'',
                js_or (opt_property (opt_property (opt_property songData ''audio'') ''timing'')
                         ''offsetSec'') (Num 0))]),
         (''lines'', Arr ks)]
        @ (if truthy (opt_property (opt_property songData ''features'') ''vocalPitch'')
           then [(''vocal_pitch'', opt_property (opt_property songData ''features'') ''vocalPitch'')]
           else [])
        @ (if truthy (opt_property (opt_property songData ''features'') ''onsets'')
           then [(''onsets'', opt_property (opt_property songData ''features'') ''onsets'')]
           else [])
        @ (if truthy (opt_property (opt_property songData ''features'') ''tempo'')
           then [(''meter'', opt_property (opt_property songData ''features'') ''tempo'')]
           else [])
        @ (if truthy (opt_property songData ''singers'') \<and>
              js_gt0 (opt_property (opt_property songData ''singers'') ''length'') = Inr True
           then [(''singers'', opt_property songData ''singers'')]
           else [])) \<and>
     list_all2
       (\<lambda>(x, i) y. y = Obj
          [(''id'', js_or (opt_property x ''name'') (opt_property x ''filename'')),
           (''role'', js_or (opt_property x ''name'') (opt_property x ''filename'')),
           (''track'', if opt_property x ''trackIndex'' \<noteq> Undefined
                       then opt_property x ''trackIndex'' else Num (real i))])
       (zip ss [0..<length ss]) srcs \<and>
     list_all2
       (\<lambda>l k. k = Obj
          ([(''start'', js_or (opt_property l ''start'')
                          (js_or (opt_property l ''startTimeSec'') (Num 0))),
            (''end'', js_or (opt_property l ''end'')
                        (js_or (opt_property l ''endTimeSec'') (Num 0))),
            (''text'', js_or (opt_property l ''text'') (Str []))]
           @ (if truthy (opt_property l ''disabled'') then [(''disabled'', Bool True)] else [])))
       ls ks \<and>
     opt_property kaid ''stems_karaoke_version'' = Undefined \<and>
     list_all (\<lambda>k. opt_property k ''singer_id'' = Undefined \<and>
                    opt_property k ''word_timing'' = Undefined) ks)"
proof -
  have h: "prepareKaidData
     (Obj [(''audio'', Obj [(''sources'', Arr
             [Obj [(''name'', Str (js ''vocals''))],
              Obj [(''filename'', Str (js ''drums.wav'')), (''trackIndex'', Num 3)]])]),
          (''features'', Obj [(''vocalPitch'', Arr [Num 60]), (''tempo'', Num 0)]),
          (''singers'', Obj [(''length'', Str (js ''5''))]),
          (''lyrics'', Arr
             [Obj [(''start'', Num 1), (''end'', Num 2), (''text'', Str (js ''la'')),
                   (''disabled'', Bool True)],
              Obj [(''startTimeSec'', Num 3), (''endTimeSec'', Num 4)]])])
   = Inr
     (Obj [(''audio'', Obj
             [(''sources'', Arr
                [Obj [(''id'', Str (js ''vocals'')), (''role'', Str (js ''vocals'')),
                      (''track'', Num 0)],
                 Obj [(''id'', Str (js ''drums.wav'')), (''role'', Str (js ''drums.wav'')),
                      (''track'', Num 3)]]),
              (''profile'', Str (js ''STEMS-4'')),
              (''encoder_delay_samples'', Num 0), (''presets'', Arr [])]),
          (''timing'', Obj [(''offset_sec'', Num 0)]),
          (''lines'', Arr
             [Obj [(''start'', Num 1), (''end'', Num 2), (''text'', Str (js ''la'')),
                   (''disabled'', Bool True)],
              Obj [(''start'', Num 3), (''end'', Num 4), (''text'', Str [])]]),
          (''vocal_pitch'', Arr [Num 60]),
          (''singers'', Obj [(''length'', Str (js ''5''))])])"
    by code_simp
  from kaid_key_set[OF h] h show ?thesis unfolding Let_def by (intro conjI)
qed

text \<open>
  The claim as written fails: a song with a singer, a line of that singer and word
  timings. The kaid object has no version, and its line neither singer nor word timing.
\<close>

theorem kaid_key_set_counterexample:
  "prepareKaidData
     (Obj [(''singers'', Arr [Obj [(''id'', Str (js ''A''))]]),
          (''lyrics'', Arr
             [Obj [(''singer'', Str (js ''A'')), (''start'', Num 12), (''end'', Num 15),
                   (''text'', Str (js ''hi'')),
                   (''word_timing'', Arr [Arr [Num 0, Num 1]])]])])
   = Inr
     (Obj [(''audio'', Obj [(''sources'', Arr []), (''profile'', Str (js ''STEMS-4'')),
                           (''encoder_delay_samples'', Num 0), (''presets'', Arr [])]),
          (''timing'', Obj [(''offset_sec'', Num 0)]),
          (''lines'', Arr [Obj [(''start'', Num 12), (''end'', Num 15),
                                (''text'', Str (js ''hi''))]]),
          (''singers'', Arr [Obj [(''id'', Str (js ''A''))]])])"
  by code_simp

text \<open>
  Claim C8, as amended. \<^verbatim>\<open>save\<close> has no \<^verbatim>\<open>OverlappingLines\<close> error and no check of the
  lines against each other. For every song that \<^verbatim>\<open>prepareKaidData\<close> accepts, also one
  with two overlapping lines of the same singer, each lyric line becomes one element
  of \<^verbatim>\<open>lines\<close>, in order and on its own, and \<^verbatim>\<open>save\<close> succeeds exactly when
  \<^verbatim>\<open>injectKaidAtom\<close> does.
\<close>

theorem save_keeps_overlapping_lines:
  assumes "prepareKaidData songData = Inr kaid"
  shows "fst (save stringify songData path s)
           = map_option (case_sum Failure (\<lambda>u. Success))
               (fst (injectKaidAtom path path (stringify kaid) s)) \<and>
         (\<exists>ls ks. js_or (opt_property songData ''lyrics'') (Arr []) = Arr ls \<and>
                  opt_property kaid ''lines'' = Arr ks \<and>
                  list_all2 (\<lambda>l k. line_entry l 0 = Inr k) ls ks)"
proof
  from assms have nn: "songData \<noteq> Undefined" "songData \<noteq> Null"
    by (auto simp: prepareKaidData_def)
  show "fst (save stringify songData path s)
           = map_option (case_sum Failure (\<lambda>u. Success))
               (fst (injectKaidAtom path path (stringify kaid) s))"
    using assms nn
    by (auto simp: save_def Let_def split: prod.splits option.splits sum.splits)
  from prepareKaidData_shape[OF assms] obtain lines where
    lines: "js_map (js_or (opt_property songData ''lyrics'') (Arr [])) line_entry = Inr lines"
    and kaid: "\<exists>a t rest. kaid = Obj ([(''audio'', a), (''timing'', t), (''lines'', lines)] @ rest)"
    by blast
  from js_map_lines[OF lines] kaid
  show "\<exists>ls ks. js_or (opt_property songData ''lyrics'') (Arr []) = Arr ls \<and>
                  opt_property kaid ''lines'' = Arr ks \<and>
                  list_all2 (\<lambda>l k. line_entry l 0 = Inr k) ls ks"
    by (auto simp: opt_property_def)
qed


theorem save_keeps_overlapping_lines_witness:
  "let songData = Obj [(''lyrics'', Arr
        [Obj [(''singer'', Str (js ''A'')), (''start'', Num 10), (''end'', Num 15),
              (''text'', Str (js ''one''))],
         Obj [(''singer'', Str (js ''A'')), (''start'', Num 14.9), (''end'', Num 20),
              (''text'', Str (js ''two''))]])];
       kaid = Obj [(''audio'', Obj [(''sources'', Arr []), (''profile'', Str (js ''STEMS-4'')),
                           (''encoder_delay_samples'', Num 0), (''presets'', Arr [])]),
          (''timing'', Obj [(''offset_sec'', Num 0)]),
          (''lines'', Arr [Obj [(''start'', Num 10), (''end'', Num 15),
                                (''text'', Str (js ''one''))],
                           Obj [(''start'', Num 14.9), (''end'', Num 20),
                                (''text'', Str (js ''two''))]])];
       s = \<lparr>files = [''song.m4a'' \<mapsto> box ''moov'' (box ''stco'' ([0, 0, 0, 0] @ be_bytes 4 1 @ be_bytes 4 36)) @ box ''mdat'' [7]], ops = [],
          on_read = (\<lambda>p. None), on_write = (\<lambda>p. Completes)\<rparr>
   in prepareKaidData songData = Inr kaid \<and>
      fst (save (\<lambda>v. js ''{}'') songData ''song.m4a'' s)
        = map_option (case_sum Failure (\<lambda>u. Success))
            (fst (injectKaidAtom ''song.m4a'' ''song.m4a'' (js ''{}'') s)) \<and>
      (\<exists>ls ks. js_or (opt_property songData ''lyrics'') (Arr []) = Arr ls \<and>
               opt_property kaid ''lines'' = Arr ks \<and>
               list_all2 (\<lambda>l k. line_entry l 0 = Inr k) ls ks)"
proof -
  have h: "prepareKaidData
     (Obj [(''lyrics'', Arr
        [Obj [(''singer'', Str (js ''A'')), (''start'', Num 10), (''end'', Num 15),
              (''text'', Str (js ''one''))],
         Obj [(''singer'', Str (js ''A'')), (''start'', Num 14.9), (''end'', Num 20),
              (''text'', Str (js ''two''))]])])
   = Inr
     (Obj [(''audio'', Obj [(''sources'', Arr []), (''profile'', Str (js ''STEMS-4'')),
                           (''encoder_delay_samples'', Num 0), (''presets'', Arr [])]),
          (''timing'', Obj [(''offset_sec'', Num 0)]),
          (''lines'', Arr [Obj [(''start'', Num 10), (''end'', Num 15),
                                (''text'', Str (js ''one''))],
                           Obj [(''start'', Num 14.9), (''end'', Num 20),
                                (''text'', Str (js ''two''))]])])"
    by code_simp
  from save_keeps_overlapping_lines[OF h, of "\<lambda>v. js ''{}''" "''song.m4a''"] h
  show ?thesis unfolding Let_def by (intro conjI) auto
qed

text \<open>
  The claim as written fails: two lines of singer A that overlap by 0.1 s, from 10 to
  15 and from 14.9 to 20; \<open>stringify\<close> gives the JSON text of the kaid object. The
  save succeeds and the file is rewritten.
\<close>

theorem save_keeps_overlapping_lines_counterexample:
  \<open>case save
       (\<lambda>v. js ''{"audio":{"sources":[],"profile":"STEMS-4","encoder_delay_samples":0,"presets":[]},"timing":{"offset_sec":0},"lines":[{"start":10,"end":15,"text":"one"},{"start":14.9,"end":20,"text":"two"}]}'')
       (Obj [(''lyrics'', Arr
        [Obj [(''singer'', Str (js ''A'')), (''start'', Num 10), (''end'', Num 15),
              (''text'', Str (js ''one''))],
         Obj [(''singer'', Str (js ''A'')), (''start'', Num 14.9), (''end'', Num 20),
              (''text'', Str (js ''two''))]])])
       ''song.m4a''
       \<lparr>files = [''song.m4a'' \<mapsto> box ''moov'' (box ''stco'' ([0, 0, 0, 0] @ be_bytes 4 1 @ be_bytes 4 36)) @ box ''mdat'' [7]], ops = [],
          on_read = (\<lambda>p. None), on_write = (\<lambda>p. Completes)\<rparr>
   of (r, s') \<Rightarrow>
     r = Some Success \<and>
     files s' ''song.m4a'' \<noteq> Some (box ''moov'' (box ''stco'' ([0, 0, 0, 0] @ be_bytes 4 1 @ be_bytes 4 36)) @ box ''mdat'' [7])\<close>
  by code_simp


end
